theory Spec2Isabelle
  imports Main "HOL-Library.Char_ord" "HOL-Library.List_Lexorder"
begin

section \<open>Gulden node start-up and shutdown (init.cpp)\<close>

text \<open>
  A shallow embedding of the parts of \<^verbatim>\<open>src/init.cpp\<close> that bring the node up and
  down: the chain-state read wrapper, the file-descriptor and low-memory parameter
  interaction, the cache split, the block-index loading loop, the block-file cleanup,
  the import thread and the core shutdown. Calls into code that lives in other
  translation units (the databases, the validator, the argument map, the user
  interface) are parameters of the model: each function below takes what those calls
  return as an argument and records what it asks them to do.
\<close>

subsection \<open>CCoinsViewErrorCatcher\<close>

text \<open>
  A C++ call either returns or throws. The catcher's handler is
  \<^verbatim>\<open>catch(const std::runtime_error& e)\<close>, so the model only has to tell a
  \<^verbatim>\<open>std::runtime_error\<close> (with its \<^verbatim>\<open>what()\<close>) from any other exception.
\<close>

datatype exn = runtime_error string | other_exception string

datatype 'a call = Returns 'a | Throws exn

text \<open>
  What a call of the catcher does: it returns, it lets an exception through, or it ends
  the process with \<^verbatim>\<open>abort()\<close> after showing a message box and writing a log line.
\<close>

record diagnostics =
  message_box :: string
  log_line :: string

datatype 'a proc = Returned 'a | Threw exn | Aborted diagnostics

text \<open>
  \<^verbatim>\<open>GetCoin(outpoint, coin)\<close> returns a \<^verbatim>\<open>bool\<close> and writes the coin through its
  reference argument: a result is the pair of the returned flag and the coin left in the
  argument. The first parameter is \<^verbatim>\<open>CCoinsViewBacked::GetCoin\<close> of the wrapped view.
\<close>

definition CCoinsViewErrorCatcher_GetCoin ::
  "('o \<Rightarrow> 'c \<Rightarrow> (bool \<times> 'c) call) \<Rightarrow> 'o \<Rightarrow> 'c \<Rightarrow> (bool \<times> 'c) proc" where
  "CCoinsViewErrorCatcher_GetCoin backed_GetCoin outpoint coin =
     (case backed_GetCoin outpoint coin of
        Returns r \<Rightarrow> Returned r
      | Throws (runtime_error what) \<Rightarrow>
          Aborted \<lparr>message_box = ''Error reading from database, shutting down.'',
                   log_line = ''Error reading from database: '' @ what\<rparr>
      | Throws (other_exception what) \<Rightarrow> Threw (other_exception what))"

subsection \<open>AppInitParameterInteraction: file descriptors\<close>

text \<open>
  Step 2 of \<^verbatim>\<open>AppInitParameterInteraction\<close> trims the requested number of connections to
  what the file-descriptor limit allows. The model takes as arguments what the
  surrounding calls return: the number of \<^verbatim>\<open>-bind\<close> and \<^verbatim>\<open>-whitebind\<close> addresses, the value
  of \<^verbatim>\<open>GetArg("-maxconnections", DEFAULT_MAX_PEER_CONNECTIONS)\<close>, the descriptor ceiling
  (\<^verbatim>\<open>rlim_cur\<close>, or \<^verbatim>\<open>FD_SETSIZE\<close> when \<^verbatim>\<open>getrlimit\<close> fails) and the function
  \<^verbatim>\<open>RaiseFileDescriptorLimit\<close>. \<^verbatim>\<open>MIN_CORE_FILEDESCRIPTORS\<close> is 150 as the file defines it
  outside Windows; \<^verbatim>\<open>MAX_ADDNODE_CONNECTIONS\<close> comes from \<^verbatim>\<open>net.h\<close> and is a parameter.
  The option value is an \<^verbatim>\<open>int64_t\<close>; the assignment to the \<^verbatim>\<open>int\<close> variable
  \<^verbatim>\<open>nUserMaxConnections\<close> on line 1020 keeps its low 32 bits. The other values are C
  \<^verbatim>\<open>int\<close>s far from the ends of their range; they are modelled as integers.
  \<^verbatim>\<open>InitError\<close> makes the function return early with the message.
\<close>

datatype init_error = InitError string

text \<open>The warning of line 1072 carries both numbers; the model keeps them as a pair.\<close>

datatype fd_warning = Reducing_maxconnections int int

record fd_env =
  bind_count :: nat
  whitebind_count :: nat
  maxconnections_arg :: int
  nSystemMaxConnections :: int
  RaiseFileDescriptorLimit :: "int \<Rightarrow> int"

record fd_result =
  nMaxConnections :: int
  nUserMaxConnections :: int
  nFD :: int
  fd_warnings :: "fd_warning list"

definition MIN_CORE_FILEDESCRIPTORS :: int where
  "MIN_CORE_FILEDESCRIPTORS = 150"

text \<open>A 64-bit value converted to \<^verbatim>\<open>int\<close>: the low 32 bits, read in two's complement.\<close>

definition narrow_int :: "int \<Rightarrow> int" where
  "narrow_int x = (x + 2 ^ 31) mod 2 ^ 32 - 2 ^ 31"

definition fd_interaction :: "int \<Rightarrow> fd_env \<Rightarrow> init_error + fd_result" where
  "fd_interaction MAX_ADDNODE_CONNECTIONS e =
     (let nBind = int (max (bind_count e + whitebind_count e) 1);
          nUser = narrow_int (maxconnections_arg e);
          nMax = max nUser 0;
          nMax = max (min nMax (nSystemMaxConnections e - nBind - MIN_CORE_FILEDESCRIPTORS
                                  - MAX_ADDNODE_CONNECTIONS)) 0;
          fd = RaiseFileDescriptorLimit e (nMax + MIN_CORE_FILEDESCRIPTORS + MAX_ADDNODE_CONNECTIONS)
      in if fd < MIN_CORE_FILEDESCRIPTORS
         then Inl (InitError ''Not enough file descriptors available.'')
         else
           (let nMax = min (fd - MIN_CORE_FILEDESCRIPTORS - MAX_ADDNODE_CONNECTIONS) nMax
            in Inr \<lparr>nMaxConnections = nMax, nUserMaxConnections = nUser, nFD = fd,
                     fd_warnings = (if nMax < nUser then [Reducing_maxconnections nUser nMax] else [])\<rparr>))"

subsection \<open>AppInitParameterInteraction: low memory\<close>

text \<open>
  The argument map is a map from option names to their values. \<^verbatim>\<open>util.cpp\<close> is not among
  the sources; its two setters are modelled here.
\<close>

type_synonym args = "string \<rightharpoonup> string"

text \<open>
  Modelled from the spec: \<^verbatim>\<open>SoftSetArg\<close> and \<^verbatim>\<open>SoftSetBoolArg\<close> of \<^verbatim>\<open>util.cpp\<close>. A setting
  the user gave explicitly is left untouched and the call answers false; otherwise the
  value is stored and the call answers true. A boolean is stored as \<open>''1''\<close> or \<open>''0''\<close>.
\<close>

definition SoftSetArg :: "string \<Rightarrow> string \<Rightarrow> args \<Rightarrow> bool \<times> args" where
  "SoftSetArg strArg strValue mapArgs =
     (if mapArgs strArg \<noteq> None then (False, mapArgs) else (True, mapArgs(strArg \<mapsto> strValue)))"

definition SoftSetBoolArg :: "string \<Rightarrow> bool \<Rightarrow> args \<Rightarrow> bool \<times> args" where
  "SoftSetBoolArg strArg fValue mapArgs =
     (if fValue then SoftSetArg strArg ''1'' mapArgs else SoftSetArg strArg ''0'' mapArgs)"

text \<open>
  The state the low-memory block works on: the argument map and the warnings issued by
  \<^verbatim>\<open>InitWarning\<close>, oldest first. \<open>soft_set_warn\<close> is the source's pattern
  \<^verbatim>\<open>if (SoftSetArg(name, value)) InitWarning(text);\<close>.
\<close>

record param_state =
  mapArgs :: args
  warnings :: "string list"

definition soft_set_warn :: "string \<Rightarrow> string \<Rightarrow> string \<Rightarrow> param_state \<Rightarrow> param_state" where
  "soft_set_warn strArg strValue w s =
     (case SoftSetArg strArg strValue (mapArgs s) of
        (True, a) \<Rightarrow> \<lparr>mapArgs = a, warnings = warnings s @ [w]\<rparr>
      | (False, a) \<Rightarrow> \<lparr>mapArgs = a, warnings = warnings s\<rparr>)"

definition soft_set_bool_warn :: "string \<Rightarrow> bool \<Rightarrow> string \<Rightarrow> param_state \<Rightarrow> param_state" where
  "soft_set_bool_warn strArg fValue w s =
     (case SoftSetBoolArg strArg fValue (mapArgs s) of
        (True, a) \<Rightarrow> \<lparr>mapArgs = a, warnings = warnings s @ [w]\<rparr>
      | (False, a) \<Rightarrow> \<lparr>mapArgs = a, warnings = warnings s\<rparr>)"

definition warn_maxconnections :: string where
  "warn_maxconnections = ''Reducing -maxconnections to 40, because of system limitations, this can be overridden by explicitely setting -maxconnections to a larger amount.''"

definition warn_maxmempool :: string where
  "warn_maxmempool = ''Reducing -maxmempool to 100, because of system limitations, this can be overridden by explicitely setting -maxmempool to a larger amount.''"

definition warn_dbcache :: string where
  "warn_dbcache = ''Reducing -dbcache to 200, because of system limitations, this can be overridden by explicitely setting -dbcache to a larger amount.''"

definition warn_rpcthreads :: string where
  "warn_rpcthreads = ''Reducing -rpcthreads to 1, because of system limitations, this can be overridden by explicitely setting -rpcthreads to a larger amount.''"

definition warn_reverseheaders :: string where
  "warn_reverseheaders = ''Disabling reverse header sync, because of system limitations, this can be overridden by explicitely setting -reverseheaders to true.''"

text \<open>
  Lines 1023 to 1050. The first argument is the text of
  \<^verbatim>\<open>i64tostr(DEFAULT_MAX_MEMPOOL_SIZE_LOWMEM)\<close>, a constant of a header that is not among
  the sources; the second is what \<^verbatim>\<open>systemPhysicalMemoryInBytes()\<close> returns.
\<close>

definition lowmem_interaction :: "string \<Rightarrow> nat \<Rightarrow> param_state \<Rightarrow> param_state" where
  "lowmem_interaction lowmem_maxmempool systemPhysicalMemoryInBytes s =
     (if systemPhysicalMemoryInBytes \<le> 1*1024*1024*1024
      then
        (let s = soft_set_warn ''-maxconnections'' ''40'' warn_maxconnections s;
             s = soft_set_warn ''-maxmempool'' lowmem_maxmempool warn_maxmempool s;
             s = soft_set_warn ''-dbcache'' ''200'' warn_dbcache s;
             s = soft_set_warn ''-rpcthreads'' ''1'' warn_rpcthreads s;
             s = soft_set_bool_warn ''-reverseheaders'' False warn_reverseheaders s
         in s)
      else s)"

subsection \<open>AppInitMain: cache size calculations\<close>

text \<open>
  Lines 1624 to 1635. The values are \<^verbatim>\<open>int64_t\<close>. \<open>int64\<close> reduces an integer to the
  signed 64-bit range, \<open>shl20\<close> is \<^verbatim>\<open><< 20\<close> on an \<^verbatim>\<open>int64_t\<close>, and \<open>cdiv\<close> is the
  division of C++, which rounds towards zero. The shift of the requested size and the
  product for the mempool are taken in the 64-bit range, since the user chooses their
  argument; once the total is clamped every later value lies between zero and the
  clamped total. The bounds \<^verbatim>\<open>nMinDbCache\<close>, \<^verbatim>\<open>nMaxDbCache\<close>, \<^verbatim>\<open>nMaxBlockDBCache\<close>,
  \<^verbatim>\<open>nMaxBlockDBAndTxIndexCache\<close> and \<^verbatim>\<open>nMaxCoinsDBCache\<close> are constants of \<^verbatim>\<open>txdb.h\<close>, which
  is not among the sources: they are a parameter. The arguments \<open>dbcache\<close> and
  \<open>maxmempool\<close> are what \<^verbatim>\<open>GetArg("-dbcache", nDefaultDbCache)\<close> and
  \<^verbatim>\<open>GetArg("-maxmempool", DEFAULT_MAX_MEMPOOL_SIZE)\<close> return, in MiB and in MB.
\<close>

definition int64 :: "int \<Rightarrow> int" where
  "int64 x = (x + 2 ^ 63) mod 2 ^ 64 - 2 ^ 63"

definition shl20 :: "int \<Rightarrow> int" where
  "shl20 x = int64 (x * 2 ^ 20)"

definition cdiv :: "int \<Rightarrow> int \<Rightarrow> int" where
  "cdiv a b = (if (a < 0) = (b < 0) then \<bar>a\<bar> div \<bar>b\<bar> else - (\<bar>a\<bar> div \<bar>b\<bar>))"

record cache_consts =
  nMinDbCache :: int
  nMaxDbCache :: int
  nMaxBlockDBCache :: int
  nMaxBlockDBAndTxIndexCache :: int
  nMaxCoinsDBCache :: int

record cache_sizes =
  nTotalCache :: int
  nBlockTreeDBCache :: int
  nCoinDBCache :: int
  nCoinCacheUsage :: int
  nMempoolSizeMax :: int

definition cache_size_calculations :: "cache_consts \<Rightarrow> bool \<Rightarrow> int \<Rightarrow> int \<Rightarrow> cache_sizes" where
  "cache_size_calculations k txindex dbcache maxmempool =
     (let total = shl20 dbcache;
          total = max total (shl20 (nMinDbCache k));
          total = min total (shl20 (nMaxDbCache k));
          blocktree = cdiv total 8;
          blocktree = min blocktree
             (shl20 (if txindex then nMaxBlockDBAndTxIndexCache k else nMaxBlockDBCache k));
          rest = total - blocktree;
          coindb = min (cdiv rest 2) (cdiv rest 4 + 2 ^ 23);
          coindb = min coindb (shl20 (nMaxCoinsDBCache k));
          rest' = rest - coindb
      in \<lparr>nTotalCache = total, nBlockTreeDBCache = blocktree, nCoinDBCache = coindb,
          nCoinCacheUsage = rest', nMempoolSizeMax = int64 (maxmempool * 1000000)\<rparr>)"

text \<open>
  The constants are sizes in MiB: not negative, ordered, and small enough for the shift
  by 20 to stay in the 64-bit range.
\<close>

definition consts_in_range :: "cache_consts \<Rightarrow> bool" where
  "consts_in_range k \<longleftrightarrow>
     0 \<le> nMinDbCache k \<and> nMinDbCache k \<le> nMaxDbCache k \<and> nMaxDbCache k < 2 ^ 43 \<and>
     0 \<le> nMaxBlockDBCache k \<and> nMaxBlockDBCache k < 2 ^ 43 \<and>
     0 \<le> nMaxBlockDBAndTxIndexCache k \<and> nMaxBlockDBAndTxIndexCache k < 2 ^ 43 \<and>
     0 \<le> nMaxCoinsDBCache k \<and> nMaxCoinsDBCache k < 2 ^ 43"

text \<open>
  For the proofs, the function in two steps: the clamped total, and the split of a
  total that is not negative.
\<close>

definition clamp_total :: "cache_consts \<Rightarrow> int \<Rightarrow> int" where
  "clamp_total k dbcache = min (max (shl20 dbcache) (shl20 (nMinDbCache k))) (shl20 (nMaxDbCache k))"

definition split_total :: "int \<Rightarrow> int \<Rightarrow> int \<Rightarrow> int \<times> int \<times> int" where
  "split_total cb cc T =
     (let bt = min (T div 8) cb; r = T - bt; cd = min (min (r div 2) (r div 4 + 8388608)) cc
      in (bt, cd, r - cd))"

text \<open>
  The values these constants have in the code base this file derives from (4 MiB to
  16 GiB, 2 MiB or 1 GiB for the block index, 8 MiB for the coin database), for the
  examples; the theorem holds for any values in range.
\<close>

definition txdb_consts :: cache_consts where
  "txdb_consts = \<lparr>nMinDbCache = 4, nMaxDbCache = 16384, nMaxBlockDBCache = 2,
                   nMaxBlockDBAndTxIndexCache = 1024, nMaxCoinsDBCache = 8\<rparr>"

subsection \<open>ThreadImport\<close>

text \<open>
  The import thread calls the validator on one source after the other. The model
  records each call as an event, in the order of the calls, and takes the answers of
  the file system and of the validator from an environment: the state of the numbered
  block files (file \<open>n\<close> of the list; a number past the end of the list is a missing
  file), whether the bootstrap file can be renamed, which import files can be opened,
  whether \<^verbatim>\<open>ActivateBestChain\<close> succeeds, the two options read at the end, and what
  \<^verbatim>\<open>ShutdownRequested()\<close> answers when it is asked at line 800, after \<^verbatim>\<open>LoadMempool\<close> has
  returned. A file is \<open>Missing\<close>, or it exists and \<^verbatim>\<open>fopen\<close> fails on it (\<open>Unopenable\<close>),
  or it can be read.
\<close>

datatype file_status = Missing | Unopenable | Openable

datatype import_event =
    Reindex_block_file nat
  | WriteReindexing_false
  | InitBlockIndex
  | Import_bootstrap
  | Rename_bootstrap
  | Warn_bootstrap
  | Import_file string
  | Warn_file string
  | ActivateBestChain
  | App_shutdown
  | LoadMempool

record import_env =
  block_files :: "file_status list"
  rename_ok :: bool
  can_open :: "string \<Rightarrow> bool"
  ActivateBestChain_ok :: bool
  stopafterblockimport :: bool
  persistmempool :: bool
  ShutdownRequested_after_load :: bool

text \<open>
  What the thread changes: the global \<^verbatim>\<open>fReindex\<close>, the bootstrap file and its renamed
  copy in the data directory, the global \<^verbatim>\<open>fDumpMempoolLater\<close>, and the events so far.
\<close>

record import_state =
  fReindex :: bool
  bootstrap_dat :: file_status
  bootstrap_dat_old :: bool
  fDumpMempoolLater :: bool
  events :: "import_event list"

definition block_file_status :: "file_status list \<Rightarrow> nat \<Rightarrow> file_status" where
  "block_file_status fs n = (if n < length fs then fs ! n else Missing)"

definition emit :: "import_event \<Rightarrow> import_state \<Rightarrow> import_state" where
  "emit ev s = s\<lparr>events := events s @ [ev]\<rparr>"

text \<open>
  The \<^verbatim>\<open>while (true)\<close> loop of the reindex: it leaves at the first file that does not
  exist (\<^verbatim>\<open>BlockFileExists\<close>) and also at the first file that cannot be opened
  (\<^verbatim>\<open>GetBlockFile\<close> returns null). It ends because the list of files is finite.
\<close>

function reindex_loop :: "file_status list \<Rightarrow> nat \<Rightarrow> import_state \<Rightarrow> import_state" where
  "reindex_loop fs nFile s =
     (case block_file_status fs nFile of
        Missing \<Rightarrow> s
      | Unopenable \<Rightarrow> s
      | Openable \<Rightarrow> reindex_loop fs (nFile + 1) (emit (Reindex_block_file nFile) s))"
  by pat_completeness auto
termination
  by (relation "measure (\<lambda>(fs, n, s). length fs - n)")
     (auto simp add: block_file_status_def split: if_splits)

declare reindex_loop.simps [simp del]

definition reindex_step :: "import_env \<Rightarrow> import_state \<Rightarrow> import_state" where
  "reindex_step e s =
     (if fReindex s
      then (let s = reindex_loop (block_files e) 0 s;
                s = emit WriteReindexing_false s;
                s = s\<lparr>fReindex := False\<rparr>
            in emit InitBlockIndex s)
      else s)"

text \<open>
  \<^verbatim>\<open>bootstrap.dat\<close>: when it opens it is loaded and then renamed; the results of
  \<^verbatim>\<open>LoadExternalBlockFile\<close> and of \<^verbatim>\<open>RenameOver\<close> are not looked at.
\<close>

definition bootstrap_step :: "import_env \<Rightarrow> import_state \<Rightarrow> import_state" where
  "bootstrap_step e s =
     (case bootstrap_dat s of
        Missing \<Rightarrow> s
      | Unopenable \<Rightarrow> emit Warn_bootstrap s
      | Openable \<Rightarrow>
          (let s = emit Import_bootstrap s;
               s = emit Rename_bootstrap s
           in if rename_ok e then s\<lparr>bootstrap_dat := Missing, bootstrap_dat_old := True\<rparr> else s))"

definition loadblock_step :: "import_env \<Rightarrow> string \<Rightarrow> import_state \<Rightarrow> import_state" where
  "loadblock_step e path s = (if can_open e path then emit (Import_file path) s else emit (Warn_file path) s)"

definition activate_step :: "import_env \<Rightarrow> import_state \<Rightarrow> import_state" where
  "activate_step e s =
     (let s = emit ActivateBestChain s
      in if \<not> ActivateBestChain_ok e then emit App_shutdown s else s)"

definition stopafter_step :: "import_env \<Rightarrow> import_state \<Rightarrow> import_state" where
  "stopafter_step e s = (if stopafterblockimport e then emit App_shutdown s else s)"

definition mempool_step :: "import_env \<Rightarrow> import_state \<Rightarrow> import_state" where
  "mempool_step e s =
     (if persistmempool e
      then (let s = emit LoadMempool s in s\<lparr>fDumpMempoolLater := \<not> ShutdownRequested_after_load e\<rparr>)
      else s)"

definition ThreadImport :: "string list \<Rightarrow> import_env \<Rightarrow> import_state \<Rightarrow> import_state" where
  "ThreadImport vImportFiles e s =
     (let s = reindex_step e s;
          s = bootstrap_step e s;
          s = fold (loadblock_step e) vImportFiles s;
          s = activate_step e s;
          s = stopafter_step e s
      in mempool_step e s)"

text \<open>The number of block files at the head of the list that can all be read.\<close>

definition usable_prefix :: "file_status list \<Rightarrow> nat" where
  "usable_prefix fs = length (takeWhile (\<lambda>st. st = Openable) fs)"

text \<open>
  The order of the sources as the specification describes it, written as one list:
  the block files, the bootstrap file, the import files as the user gave them, then
  the activation of the best chain, the shutdown requests and the mempool load.
\<close>

definition import_order :: "string list \<Rightarrow> import_env \<Rightarrow> import_state \<Rightarrow> import_event list" where
  "import_order vImportFiles e s =
     (if fReindex s
      then map Reindex_block_file [0 ..< usable_prefix (block_files e)]
             @ [WriteReindexing_false, InitBlockIndex]
      else [])
     @ (case bootstrap_dat s of
          Missing \<Rightarrow> []
        | Unopenable \<Rightarrow> [Warn_bootstrap]
        | Openable \<Rightarrow> [Import_bootstrap, Rename_bootstrap])
     @ map (\<lambda>path. if can_open e path then Import_file path else Warn_file path) vImportFiles
     @ [ActivateBestChain]
     @ (if ActivateBestChain_ok e then [] else [App_shutdown])
     @ (if stopafterblockimport e then [App_shutdown] else [])
     @ (if persistmempool e then [LoadMempool] else [])"

definition import_example_env :: import_env where
  "import_example_env = \<lparr>block_files = [Openable, Openable], rename_ok = True,
     can_open = (\<lambda>path. path = ''a.dat''), ActivateBestChain_ok = False,
     stopafterblockimport = False, persistmempool = True, ShutdownRequested_after_load = True\<rparr>"

definition import_example_state :: import_state where
  "import_example_state = \<lparr>fReindex = True, bootstrap_dat = Openable, bootstrap_dat_old = False,
     fDumpMempoolLater = False, events = []\<rparr>"

text \<open>A data directory in which block file 1 is there and cannot be opened.\<close>

definition unopenable_example_env :: import_env where
  "unopenable_example_env = \<lparr>block_files = [Openable, Unopenable, Openable], rename_ok = True,
     can_open = (\<lambda>path. True), ActivateBestChain_ok = True,
     stopafterblockimport = False, persistmempool = False, ShutdownRequested_after_load = False\<rparr>"

definition unopenable_example_state :: import_state where
  "unopenable_example_state = \<lparr>fReindex = True, bootstrap_dat = Missing, bootstrap_dat_old = False,
     fDumpMempoolLater = False, events = []\<rparr>"

subsection \<open>CoreShutdown\<close>

text \<open>
  What one call of \<^verbatim>\<open>CoreShutdown\<close> does once it holds the lock \<^verbatim>\<open>cs_Shutdown\<close>, as
  the list of its actions in order (log lines and the \<^verbatim>\<open>MilliSleep\<close> pauses left out).
  The globals that the body tests are its argument; the compile-time switches
  \<^verbatim>\<open>ENABLE_WALLET\<close> and \<^verbatim>\<open>WIN32\<close> are among them, and \<open>pzmqNotificationInterface\<close> is false
  when the build has no ZMQ.
\<close>

datatype shutdown_action =
    AddTransactionsUpdated
  | Connman_Stop
  | StopHTTPServer
  | StopHTTPRPC
  | StopRPC
  | StopREST
  | StopTorControl
  | Join_all
  | Wallet_Flush nat bool
  | MapPort_off
  | Unregister_peerLogic
  | Reset_peerLogic
  | Reset_connman
  | UnregisterNodeSignals
  | DumpMempool
  | FlushUnconfirmed
  | Write_fee_estimates
  | Log_fee_estimates_failed
  | FlushStateToDisk
  | CloseBlockFiles
  | Delete_pcoinsTip
  | Delete_pcoinscatcher
  | Delete_pcoinsdbview
  | Release_ppow2witTip
  | Delete_ppow2witcatcher
  | Delete_ppow2witdbview
  | Delete_pblocktree
  | Close_zmq
  | Remove_pid_file
  | UnregisterAllValidationInterfaces
  | Delete_wallet nat
  | Reset_globalVerifyHandle
  | ECC_Stop
  | Remove string

record shutdown_globals =
  g_connman :: bool
  ENABLE_WALLET :: bool
  vpwallets :: nat
  dump_later :: bool
  persistmempool_arg :: bool
  fFeeEstimatesInitialized :: bool
  est_fileout_ok :: bool
  pcoinsTip :: bool
  pzmqNotificationInterface :: bool
  WIN32 :: bool
  partiallyEraseDatadirOnShutdown :: bool
  fullyEraseDatadirOnShutdown :: bool

definition CoreShutdown_actions :: "shutdown_globals \<Rightarrow> shutdown_action list" where
  "CoreShutdown_actions g =
     [AddTransactionsUpdated]
     @ (if g_connman g then [Connman_Stop] else [])
     @ [StopHTTPServer, StopHTTPRPC, StopRPC, StopREST, StopTorControl, Join_all]
     @ (if ENABLE_WALLET g then map (\<lambda>w. Wallet_Flush w False) [0 ..< vpwallets g] else [])
     @ [MapPort_off, Unregister_peerLogic, Reset_peerLogic, Reset_connman, UnregisterNodeSignals]
     @ (if dump_later g \<and> persistmempool_arg g then [DumpMempool] else [])
     @ (if fFeeEstimatesInitialized g
        then [FlushUnconfirmed, if est_fileout_ok g then Write_fee_estimates else Log_fee_estimates_failed]
        else [])
     @ (if pcoinsTip g then [FlushStateToDisk] else [])
     @ [CloseBlockFiles, Delete_pcoinsTip, Delete_pcoinscatcher, Delete_pcoinsdbview,
        Release_ppow2witTip, Delete_ppow2witcatcher, Delete_ppow2witdbview, Delete_pblocktree]
     @ (if ENABLE_WALLET g then map (\<lambda>w. Wallet_Flush w True) [0 ..< vpwallets g] else [])
     @ (if pzmqNotificationInterface g then [Close_zmq] else [])
     @ (if WIN32 g then [] else [Remove_pid_file])
     @ [UnregisterAllValidationInterfaces]
     @ (if ENABLE_WALLET g then map Delete_wallet [0 ..< vpwallets g] else [])
     @ [Reset_globalVerifyHandle, ECC_Stop]
     @ (if fullyEraseDatadirOnShutdown g \<or> partiallyEraseDatadirOnShutdown g
        then [Remove ''autocheckpoints'', Remove ''banlist.dat'', Remove ''peers.dat''] else [])
     @ (if fullyEraseDatadirOnShutdown g
        then [Remove ''mempool.dat'', Remove ''fee_estimates.dat'', Remove ''blocks'',
              Remove ''chainstate'', Remove ''witstate'', Remove ''database'', Remove ''db.log'']
        else [])"

text \<open>
  \<^verbatim>\<open>fDumpMempoolLater\<close> is false when the process starts and is written in one place,
  at the end of the import thread. At shutdown it holds what an import thread that got
  as far as the mempool load has left in it, and is still false otherwise.
\<close>

datatype import_run = Load_step_not_reached | Load_step_done "string list" import_env import_state

definition flag_at_shutdown :: "import_run \<Rightarrow> bool" where
  "flag_at_shutdown r =
     (case r of
        Load_step_not_reached \<Rightarrow> False
      | Load_step_done files e s \<Rightarrow> fDumpMempoolLater (ThreadImport files e (s\<lparr>fDumpMempoolLater := False\<rparr>)))"

definition shutdown_example_globals :: shutdown_globals where
  "shutdown_example_globals = \<lparr>g_connman = True, ENABLE_WALLET = True, vpwallets = 1,
     dump_later = False, persistmempool_arg = True, fFeeEstimatesInitialized = True,
     est_fileout_ok = True, pcoinsTip = True, pzmqNotificationInterface = False, WIN32 = False,
     partiallyEraseDatadirOnShutdown = False, fullyEraseDatadirOnShutdown = False\<rparr>"

subsection \<open>Overlapping calls of CoreShutdown\<close>

text \<open>
  The body of \<^verbatim>\<open>CoreShutdown\<close> after the lock is taken, as the list of its statements in
  order. A statement reads the globals as they stand when it is run, carries out its
  actions and leaves the globals as it has changed them: \<^verbatim>\<open>g_connman.reset()\<close> (line 233),
  \<^verbatim>\<open>fFeeEstimatesInitialized = false\<close> (line 250), \<^verbatim>\<open>pcoinsTip = NULL\<close> (line 261),
  \<^verbatim>\<open>pzmqNotificationInterface = NULL\<close> (line 294) and \<^verbatim>\<open>vpwallets.clear()\<close> (line 318). A
  call that comes after another has completed therefore finds the guards of lines 205,
  223, 241, 256, 282, 290 and 314 changed.
\<close>

type_synonym statement = "shutdown_globals \<Rightarrow> shutdown_action list \<times> shutdown_globals"

definition does :: "shutdown_action list \<Rightarrow> statement" where
  "does as = (\<lambda>g. (as, g))"

definition does_if :: "(shutdown_globals \<Rightarrow> bool) \<Rightarrow> shutdown_action list \<Rightarrow> statement" where
  "does_if P as = (\<lambda>g. (if P g then as else [], g))"

definition CoreShutdown_body :: "statement list" where
  "CoreShutdown_body =
     [does [AddTransactionsUpdated],
      does_if g_connman [Connman_Stop],
      does [StopHTTPServer], does [StopHTTPRPC], does [StopRPC], does [StopREST],
      does [StopTorControl], does [Join_all],
      (\<lambda>g. (if ENABLE_WALLET g then map (\<lambda>w. Wallet_Flush w False) [0 ..< vpwallets g] else [], g)),
      does [MapPort_off], does [Unregister_peerLogic], does [Reset_peerLogic],
      (\<lambda>g. ([Reset_connman], g\<lparr>g_connman := False\<rparr>)),
      does [UnregisterNodeSignals],
      does_if (\<lambda>g. dump_later g \<and> persistmempool_arg g) [DumpMempool],
      (\<lambda>g. if fFeeEstimatesInitialized g
           then ([FlushUnconfirmed,
                  if est_fileout_ok g then Write_fee_estimates else Log_fee_estimates_failed],
                 g\<lparr>fFeeEstimatesInitialized := False\<rparr>)
           else ([], g)),
      does_if pcoinsTip [FlushStateToDisk],
      does [CloseBlockFiles],
      (\<lambda>g. ([Delete_pcoinsTip], g\<lparr>pcoinsTip := False\<rparr>)),
      does [Delete_pcoinscatcher], does [Delete_pcoinsdbview], does [Release_ppow2witTip],
      does [Delete_ppow2witcatcher], does [Delete_ppow2witdbview], does [Delete_pblocktree],
      (\<lambda>g. (if ENABLE_WALLET g then map (\<lambda>w. Wallet_Flush w True) [0 ..< vpwallets g] else [], g)),
      (\<lambda>g. if pzmqNotificationInterface g
           then ([Close_zmq], g\<lparr>pzmqNotificationInterface := False\<rparr>)
           else ([], g)),
      does_if (\<lambda>g. \<not> WIN32 g) [Remove_pid_file],
      does [UnregisterAllValidationInterfaces],
      (\<lambda>g. if ENABLE_WALLET g
           then (map Delete_wallet [0 ..< vpwallets g], g\<lparr>vpwallets := 0\<rparr>)
           else ([], g)),
      does [Reset_globalVerifyHandle], does [ECC_Stop],
      does_if (\<lambda>g. fullyEraseDatadirOnShutdown g \<or> partiallyEraseDatadirOnShutdown g)
        [Remove ''autocheckpoints'', Remove ''banlist.dat'', Remove ''peers.dat''],
      does_if fullyEraseDatadirOnShutdown
        [Remove ''mempool.dat'', Remove ''fee_estimates.dat'', Remove ''blocks'',
         Remove ''chainstate'', Remove ''witstate'', Remove ''database'', Remove ''db.log'']]"

text \<open>The statements of a list run one after the other by a single call.\<close>

fun run_body :: "statement list \<Rightarrow> shutdown_globals \<Rightarrow> shutdown_action list \<times> shutdown_globals" where
  "run_body [] g = ([], g)"
| "run_body (st # sts) g =
     (case st g of (as, g') \<Rightarrow> (case run_body sts g' of (bs, g'') \<Rightarrow> (as @ bs, g'')))"

text \<open>The globals as one complete call leaves them.\<close>

definition globals_after_CoreShutdown :: "shutdown_globals \<Rightarrow> shutdown_globals" where
  "globals_after_CoreShutdown g =
     g\<lparr>g_connman := False, vpwallets := (if ENABLE_WALLET g then 0 else vpwallets g),
       fFeeEstimatesInitialized := False, pcoinsTip := False, pzmqNotificationInterface := False\<rparr>"

text \<open>
  \<^verbatim>\<open>CoreShutdown\<close> starts with \<^verbatim>\<open>TRY_LOCK(cs_Shutdown, lockShutdown); if (!lockShutdown) return;\<close>
  and the lock is given back when the function returns. Several calls on different
  threads are modelled as an interleaving: every call has a number and a place in the
  function (not yet called; entered and about to try the lock; holding the lock with
  \<open>i\<close> statements done; returned at once because the lock was taken; completed), and
  a schedule, a list of call numbers, lets the named call take its next atomic step.
  Every schedule is allowed. The globals are shared by all calls. \<open>performed\<close> lists the
  actions carried out so far with the call that carried each one out.
  \<^verbatim>\<open>cs_Shutdown\<close> is a recursive mutex; a thread does not call \<^verbatim>\<open>CoreShutdown\<close> from
  inside \<^verbatim>\<open>CoreShutdown\<close>, so every call meets the lock either free or held by another.
\<close>

datatype call_state = Not_called | Before_try_lock | Running nat | Returned_at_once | Completed

record shutdown_state =
  cs_Shutdown :: "nat option"
  calls :: "nat \<Rightarrow> call_state"
  globals :: shutdown_globals
  performed :: "(nat \<times> shutdown_action) list"

definition shutdown_init :: "shutdown_globals \<Rightarrow> shutdown_state" where
  "shutdown_init g = \<lparr>cs_Shutdown = None, calls = (\<lambda>c. Not_called), globals = g, performed = []\<rparr>"

definition advance :: "statement list \<Rightarrow> nat \<Rightarrow> shutdown_state \<Rightarrow> shutdown_state" where
  "advance body c s =
     (case calls s c of
        Not_called \<Rightarrow> s\<lparr>calls := (calls s)(c := Before_try_lock)\<rparr>
      | Before_try_lock \<Rightarrow>
          (case cs_Shutdown s of
             None \<Rightarrow> s\<lparr>cs_Shutdown := Some c, calls := (calls s)(c := Running 0)\<rparr>
           | Some owner \<Rightarrow> s\<lparr>calls := (calls s)(c := Returned_at_once)\<rparr>)
      | Running i \<Rightarrow>
          (if i < length body
           then (case (body ! i) (globals s) of
                   (as, g') \<Rightarrow>
                     s\<lparr>calls := (calls s)(c := Running (Suc i)), globals := g',
                       performed := performed s @ map (Pair c) as\<rparr>)
           else s\<lparr>cs_Shutdown := None, calls := (calls s)(c := Completed)\<rparr>)
      | Returned_at_once \<Rightarrow> s
      | Completed \<Rightarrow> s)"

definition run_calls :: "statement list \<Rightarrow> shutdown_globals \<Rightarrow> nat list \<Rightarrow> shutdown_state" where
  "run_calls body g schedule = fold (advance body) schedule (shutdown_init g)"

text \<open>
  The invariant of every schedule that starts with the globals \<open>g0\<close>: the lock is held
  exactly by the call that is running; a running call has done no more statements than
  there are; only a call that is running or has completed has carried out actions; as
  long as no call has completed, the actions and the globals are those of the running
  call's statements so far; and when one call has completed and no other is running
  or has completed, they are those of one complete run.
\<close>

definition shutdown_inv :: "statement list \<Rightarrow> shutdown_globals \<Rightarrow> shutdown_state \<Rightarrow> bool" where
  "shutdown_inv body g0 s \<longleftrightarrow>
     (\<forall>c. (cs_Shutdown s = Some c) = (\<exists>i. calls s c = Running i)) \<and>
     (\<forall>c i. calls s c = Running i \<longrightarrow> i \<le> length body) \<and>
     (\<forall>c a. (c, a) \<in> set (performed s) \<longrightarrow> (\<exists>i. calls s c = Running i) \<or> calls s c = Completed) \<and>
     ((\<forall>c. calls s c \<noteq> Completed) \<longrightarrow>
        (cs_Shutdown s = None \<longrightarrow> performed s = [] \<and> globals s = g0) \<and>
        (\<forall>c i. calls s c = Running i \<longrightarrow>
           performed s = map (Pair c) (fst (run_body (take i body) g0)) \<and>
           globals s = snd (run_body (take i body) g0))) \<and>
     (\<forall>c. calls s c = Completed \<and> (\<forall>d. d \<noteq> c \<longrightarrow> calls s d \<noteq> Completed \<and> (\<forall>i. calls s d \<noteq> Running i))
        \<longrightarrow> performed s = map (Pair c) (fst (run_body body g0)) \<and> globals s = snd (run_body body g0))"

subsection \<open>AppInitMain: loading the block index\<close>

text \<open>
  Step 7 of \<^verbatim>\<open>AppInitMain\<close>, lines 1646 to 1826: the loop \<^verbatim>\<open>while (!fLoaded)\<close> around the
  \<^verbatim>\<open>do { ... } while(false)\<close> block with the label \<^verbatim>\<open>loadblockindex\<close>. One run from the
  label to a \<^verbatim>\<open>break\<close>, a \<^verbatim>\<open>goto\<close>, a \<^verbatim>\<open>return\<close> or the end of the block is a pass; one
  iteration of the \<^verbatim>\<open>while\<close> loop is an attempt, made of the passes up to the first one
  that does not end in \<^verbatim>\<open>goto loadblockindex\<close>.

  The databases, the validator and the user interface are not among the sources. What
  their calls answer in a pass is the pass's environment: the results of \<^verbatim>\<open>Upgrade\<close>,
  \<^verbatim>\<open>LoadBlockIndex\<close>, \<^verbatim>\<open>UpgradeBlockIndex\<close>, \<^verbatim>\<open>InitBlockIndex\<close>, \<^verbatim>\<open>RewindBlockIndex\<close> and
  \<^verbatim>\<open>VerifyDB\<close>, the stored version, whether the loaded index is empty or holds the genesis
  block, the globals \<^verbatim>\<open>fTxIndex\<close> and \<^verbatim>\<open>fHavePruned\<close> as they stand when they are tested,
  whether there is a tip and whether its time is more than two hours ahead. \<open>throws\<close>
  says, for a line of \<^verbatim>\<open>init.cpp\<close>, whether the call on that line throws an exception
  derived from \<^verbatim>\<open>std::exception\<close> when the pass runs it; the handler of line 1800 turns
  it into the load error "Error opening block database". A statement that only logs,
  reads an option or translates a message is taken not to throw. The options that do
  not change during the loop are the configuration.
\<close>

record load_config =
  txindex_arg :: bool
  fPruneMode :: bool
  resyncforblockindexupgrade :: bool

record pass_env =
  throws :: "nat \<Rightarrow> bool"
  Upgrade_ok :: bool
  nPreviousVersion :: int
  LoadBlockIndex_ok :: bool
  UpgradeBlockIndex_ok :: bool
  genesis_ok :: bool
  InitBlockIndex_ok :: bool
  fTxIndex :: bool
  fHavePruned :: bool
  tip_exists :: bool
  RewindBlockIndex_ok :: bool
  tip_from_future :: bool
  VerifyDB_ok :: bool

text \<open>
  Every pass begins by deleting the objects behind six global pointers and creating
  them anew (lines 1659 to 1674). \<^verbatim>\<open>delete\<close> does not reset the pointer: after it the
  pointer dangles until the assignment of the new object. When a constructor throws,
  the pointers that have not been assigned yet are left dangling, and a later pass that
  deletes one of them again has undefined behaviour. The model follows the state of
  each pointer and ends a pass that deletes a dangling pointer with an outcome of its
  own; nothing is said about what the program does after that. The pointers are null
  when the process starts.
\<close>

datatype global_pointer =
    Ptr_pcoinsTip | Ptr_pcoinsdbview | Ptr_pcoinscatcher | Ptr_pblocktree
  | Ptr_ppow2witdbview | Ptr_ppow2witcatcher

datatype pointer_state = Null | Live | Dangling

datatype open_step = Delete global_pointer | Assign_new nat global_pointer

datatype open_outcome = Opened | Open_threw | Open_double_delete global_pointer

fun run_open ::
  "open_step list \<Rightarrow> (nat \<Rightarrow> bool) \<Rightarrow> (global_pointer \<Rightarrow> pointer_state)
     \<Rightarrow> open_outcome \<times> (global_pointer \<Rightarrow> pointer_state)" where
  "run_open [] thr h = (Opened, h)"
| "run_open (Delete p # steps) thr h =
     (case h p of
        Null \<Rightarrow> run_open steps thr h
      | Live \<Rightarrow> run_open steps thr (h(p := Dangling))
      | Dangling \<Rightarrow> (Open_double_delete p, h))"
| "run_open (Assign_new line p # steps) thr h =
     (if thr line then (Open_threw, h) else run_open steps thr (h(p := Live)))"

definition open_steps :: "open_step list" where
  "open_steps =
     [Delete Ptr_pcoinsTip, Delete Ptr_pcoinsdbview, Delete Ptr_pcoinscatcher, Delete Ptr_pblocktree,
      Assign_new 1664 Ptr_pblocktree, Assign_new 1665 Ptr_pcoinsdbview,
      Assign_new 1666 Ptr_pcoinscatcher, Assign_new 1667 Ptr_pcoinsTip,
      Delete Ptr_ppow2witdbview, Delete Ptr_ppow2witcatcher,
      Assign_new 1673 Ptr_ppow2witdbview, Assign_new 1674 Ptr_ppow2witcatcher]"

datatype pass_outcome =
    Goto_loadblockindex | Pass_loaded | Pass_failed string | Pass_init_error string
  | Pass_double_delete global_pointer

datatype attempt_outcome =
    Attempt_loaded | Attempt_failed string | Attempt_init_error string
  | Attempt_double_delete global_pointer

datatype load_event = Attempt bool attempt_outcome | Question string "bool option"

datatype load_result =
    Loaded | Aborted_by_user | Init_error string | Undefined_double_delete global_pointer

text \<open>
  The state of the loop: the global \<^verbatim>\<open>fReindex\<close>, the function's static
  \<^verbatim>\<open>upgradeOnceOnly\<close>, the six pointers, the number of environments used and of
  questions asked (they index the environment and the user's answers), and the record
  of attempts and questions.
\<close>

record load_state =
  load_fReindex :: bool
  upgradeOnceOnly :: bool
  pointers :: "global_pointer \<Rightarrow> pointer_state"
  passes :: nat
  questions :: nat
  load_log :: "load_event list"

definition opening_error :: string where
  "opening_error = ''Error opening block database''"

definition txindex_error :: string where
  "txindex_error = ''You need to rebuild the database using -reindex-chainstate to change -txindex''"

text \<open>
  Lines 1700 to 1704 and again 1736 to 1740: the block index is erased and the pass
  starts over with \<^verbatim>\<open>fReindex\<close> set. The arguments are the lines of the three calls.
\<close>

definition erase_block_index ::
  "nat \<Rightarrow> nat \<Rightarrow> nat \<Rightarrow> pass_env \<Rightarrow> load_state \<Rightarrow> pass_outcome \<times> load_state" where
  "erase_block_index InitMessage_line UnloadBlockIndex_line Delete_line e s =
     (if throws e InitMessage_line \<or> throws e UnloadBlockIndex_line
        then (Pass_failed opening_error, s)
      else if throws e Delete_line then (Pass_failed opening_error, s\<lparr>load_fReindex := True\<rparr>)
      else (Goto_loadblockindex, s\<lparr>load_fReindex := True\<rparr>))"

text \<open>Lines 1716 to 1742, the second block of the version 2.0 upgrade.\<close>

definition upgrade_block_index :: "load_config \<Rightarrow> pass_env \<Rightarrow> load_state \<Rightarrow> pass_outcome \<times> load_state" where
  "upgrade_block_index cfg e s0 =
     (let s = s0\<lparr>upgradeOnceOnly := False\<rparr> in
      if resyncforblockindexupgrade cfg then erase_block_index 1736 1737 1739 e s
      else if throws e 1720 \<or> throws e 1721 then (Pass_failed opening_error, s)
      else if \<not> UpgradeBlockIndex_ok e then erase_block_index 1736 1737 1739 e s
      else if throws e 1728 \<or> throws e 1730 \<or> throws e 1731 then (Pass_failed opening_error, s)
      else (Goto_loadblockindex, s))"

text \<open>Lines 1745 to 1799: the tests on the loaded index.\<close>

definition verify_loaded :: "load_config \<Rightarrow> pass_env \<Rightarrow> load_state \<Rightarrow> pass_outcome \<times> load_state" where
  "verify_loaded cfg e s =
     (if \<not> genesis_ok e
        then (Pass_init_error ''Incorrect or no genesis block found. Wrong datadir for network?'', s)
      else if throws e 1751 then (Pass_failed opening_error, s)
      else if \<not> InitBlockIndex_ok e then (Pass_failed ''Error initializing block database'', s)
      else if fTxIndex e \<noteq> txindex_arg cfg then (Pass_failed txindex_error, s)
      else if fHavePruned e \<and> \<not> fPruneMode cfg
        then (Pass_failed ''You need to rebuild the database using -reindex to go back to unpruned mode.  This will redownload the entire blockchain'', s)
      else if \<not> load_fReindex s \<and> tip_exists e \<and> (throws e 1770 \<or> throws e 1771)
        then (Pass_failed opening_error, s)
      else if \<not> load_fReindex s \<and> tip_exists e \<and> \<not> RewindBlockIndex_ok e
        then (Pass_failed ''Unable to rewind the database to a pre-fork state. You will need to redownload the blockchain'', s)
      else if throws e 1777 \<or> throws e 1786 then (Pass_failed opening_error, s)
      else if tip_exists e \<and> tip_from_future e
        then (Pass_failed ''The block database contains a block which appears to be from the future. This may be due to your computer's date and time being set incorrectly. Only rebuild the block database if you are sure that your computer's date and time are correct'', s)
      else if throws e 1795 then (Pass_failed opening_error, s)
      else if \<not> VerifyDB_ok e then (Pass_failed ''Corrupted block database detected'', s)
      else (Pass_loaded, s))"

text \<open>Lines 1675 to 1714: from the last object created to the second upgrade test.\<close>

definition databases_opened :: "load_config \<Rightarrow> pass_env \<Rightarrow> load_state \<Rightarrow> pass_outcome \<times> load_state" where
  "databases_opened cfg e s =
     (if throws e 1675 \<or> throws e 1677 then (Pass_failed opening_error, s)
      else if load_fReindex s \<and> (throws e 1681 \<or> (fPruneMode cfg \<and> throws e 1684))
        then (Pass_failed opening_error, s)
      else if \<not> load_fReindex s \<and> throws e 1687 then (Pass_failed opening_error, s)
      else if \<not> load_fReindex s \<and> \<not> Upgrade_ok e
        then (Pass_failed ''Error upgrading chainstate database'', s)
      else if upgradeOnceOnly s \<and> nPreviousVersion e < 1 \<and> resyncforblockindexupgrade cfg
        then erase_block_index 1700 1701 1703 e (s\<lparr>upgradeOnceOnly := False\<rparr>)
      else if throws e 1708 then (Pass_failed opening_error, s)
      else if \<not> LoadBlockIndex_ok e then (Pass_failed ''Error loading block database'', s)
      else if upgradeOnceOnly s \<and> nPreviousVersion e < 1 then upgrade_block_index cfg e s
      else verify_loaded cfg e s)"

text \<open>One pass, from the label \<^verbatim>\<open>loadblockindex\<close>.\<close>

definition load_pass :: "load_config \<Rightarrow> pass_env \<Rightarrow> load_state \<Rightarrow> pass_outcome \<times> load_state" where
  "load_pass cfg e s =
     (case run_open open_steps (throws e) (pointers s) of
        (Opened, h) \<Rightarrow> databases_opened cfg e (s\<lparr>pointers := h\<rparr>)
      | (Open_threw, h) \<Rightarrow> (Pass_failed opening_error, s\<lparr>pointers := h\<rparr>)
      | (Open_double_delete p, h) \<Rightarrow> (Pass_double_delete p, s\<lparr>pointers := h\<rparr>))"

text \<open>
  The passes of one attempt. A pass that ends in \<^verbatim>\<open>goto loadblockindex\<close> has cleared
  \<^verbatim>\<open>upgradeOnceOnly\<close>, which was set: there is at most one such pass in the life of the
  process, and the recursion ends.
\<close>

function load_passes ::
  "load_config \<Rightarrow> (nat \<Rightarrow> pass_env) \<Rightarrow> load_state \<Rightarrow> attempt_outcome \<times> load_state" where
  "load_passes cfg env s =
     (case load_pass cfg (env (passes s)) s of
        (Goto_loadblockindex, s') \<Rightarrow> load_passes cfg env (s'\<lparr>passes := Suc (passes s')\<rparr>)
      | (Pass_loaded, s') \<Rightarrow> (Attempt_loaded, s'\<lparr>passes := Suc (passes s')\<rparr>)
      | (Pass_failed msg, s') \<Rightarrow> (Attempt_failed msg, s'\<lparr>passes := Suc (passes s')\<rparr>)
      | (Pass_init_error msg, s') \<Rightarrow> (Attempt_init_error msg, s'\<lparr>passes := Suc (passes s')\<rparr>)
      | (Pass_double_delete p, s') \<Rightarrow> (Attempt_double_delete p, s'\<lparr>passes := Suc (passes s')\<rparr>))"
  by pat_completeness auto
termination
proof (relation "measure (\<lambda>(cfg, env, s). if upgradeOnceOnly s then 1 else 0)")
  show "wf (measure (\<lambda>(cfg, env, s). if upgradeOnceOnly s then 1 else 0))" by simp
next
  fix cfg :: load_config and env :: "nat \<Rightarrow> pass_env" and s :: load_state and x1 s'
  assume "(x1, s') = load_pass cfg (env (passes s)) s" and "x1 = Goto_loadblockindex"
  then have "load_pass cfg (env (passes s)) s = (Goto_loadblockindex, s')" by simp
  then have "upgradeOnceOnly s \<and> \<not> upgradeOnceOnly s'"
    unfolding load_pass_def databases_opened_def upgrade_block_index_def erase_block_index_def
      verify_loaded_def Let_def
    by (auto split: prod.splits open_outcome.splits if_splits)
  then show "((cfg, env, s'\<lparr>passes := Suc (passes s')\<rparr>), (cfg, env, s))
      \<in> measure (\<lambda>(cfg, env, s). if upgradeOnceOnly s then 1 else 0)"
    by simp
qed

declare load_passes.simps [simp del]

text \<open>
  One attempt: \<^verbatim>\<open>UnloadBlockIndex()\<close> on line 1657, inside the \<^verbatim>\<open>try\<close> block and before the
  label, then the passes.
\<close>

definition load_attempt ::
  "load_config \<Rightarrow> (nat \<Rightarrow> pass_env) \<Rightarrow> load_state \<Rightarrow> attempt_outcome \<times> load_state" where
  "load_attempt cfg env s =
     (if throws (env (passes s)) 1657
      then (Attempt_failed opening_error, s\<lparr>passes := Suc (passes s)\<rparr>)
      else load_passes cfg env s)"

text \<open>
  \<^verbatim>\<open>uiInterface.ThreadSafeQuestion\<close> returns an optional boolean; the code reads it with
  \<^verbatim>\<open>value_or(false)\<close>. The answers are a parameter, one for each question in turn.
\<close>

definition ask :: "(nat \<Rightarrow> bool option) \<Rightarrow> string \<Rightarrow> load_state \<Rightarrow> bool option \<times> load_state" where
  "ask ThreadSafeQuestion msg s =
     (ThreadSafeQuestion (questions s),
      s\<lparr>questions := Suc (questions s),
        load_log := load_log s @ [Question msg (ThreadSafeQuestion (questions s))]\<rparr>)"

text \<open>
  The \<^verbatim>\<open>while (!fLoaded)\<close> loop. \<^verbatim>\<open>fReset\<close> is \<^verbatim>\<open>fReindex\<close> as it was when the iteration
  began. The loop ends: it only goes round again after setting \<^verbatim>\<open>fReindex\<close>, and with
  \<^verbatim>\<open>fReindex\<close> set it returns. The calls outside the \<^verbatim>\<open>try\<close> block (the messages and
  the question to the user) are taken to return.
\<close>

function load_loop ::
  "load_config \<Rightarrow> (nat \<Rightarrow> pass_env) \<Rightarrow> (nat \<Rightarrow> bool option) \<Rightarrow> load_state
     \<Rightarrow> load_result \<times> load_state" where
  "load_loop cfg env ThreadSafeQuestion s =
     (case load_attempt cfg env s of
        (r, s1) \<Rightarrow>
          (case r of
             Attempt_loaded \<Rightarrow>
               (Loaded, s1\<lparr>load_log := load_log s1 @ [Attempt (load_fReindex s) r]\<rparr>)
           | Attempt_init_error msg \<Rightarrow>
               (Init_error msg, s1\<lparr>load_log := load_log s1 @ [Attempt (load_fReindex s) r]\<rparr>)
           | Attempt_double_delete p \<Rightarrow>
               (Undefined_double_delete p,
                s1\<lparr>load_log := load_log s1 @ [Attempt (load_fReindex s) r]\<rparr>)
           | Attempt_failed strLoadError \<Rightarrow>
               (if \<not> load_fReindex s
                then (case ask ThreadSafeQuestion strLoadError
                             (s1\<lparr>load_log := load_log s1 @ [Attempt (load_fReindex s) r]\<rparr>) of
                        (fRet, s2) \<Rightarrow>
                          (if fRet = Some True
                           then load_loop cfg env ThreadSafeQuestion (s2\<lparr>load_fReindex := True\<rparr>)
                           else (Aborted_by_user, s2)))
                else (Init_error strLoadError,
                      s1\<lparr>load_log := load_log s1 @ [Attempt (load_fReindex s) r]\<rparr>))))"
  by pat_completeness auto
termination
proof (relation "measure (\<lambda>(cfg, env, q, s). if load_fReindex s then 0 else 1)")
  show "wf (measure (\<lambda>(cfg, env, q, s). if load_fReindex s then 0 else 1))" by simp
next
  fix cfg :: load_config and env :: "nat \<Rightarrow> pass_env" and q :: "nat \<Rightarrow> bool option"
    and s s1 s2 :: load_state and r msg fRet x
  assume "\<not> load_fReindex s"
  then show "((cfg, env, q, s2\<lparr>load_fReindex := True\<rparr>), (cfg, env, q, s))
      \<in> measure (\<lambda>(cfg, env, q, s). if load_fReindex s then 0 else 1)"
    by simp
qed

declare load_loop.simps [simp del]

text \<open>
  The loop as \<^verbatim>\<open>AppInitMain\<close> enters it: \<^verbatim>\<open>fReindex\<close> from the option \<^verbatim>\<open>-reindex\<close>, the static
  flag still true, the pointers null, nothing asked yet.
\<close>

definition load_start :: "bool \<Rightarrow> load_state" where
  "load_start fReindex0 =
     \<lparr>load_fReindex = fReindex0, upgradeOnceOnly = True, pointers = (\<lambda>p. Null), passes = 0,
      questions = 0, load_log = []\<rparr>"

definition load_block_index ::
  "load_config \<Rightarrow> (nat \<Rightarrow> pass_env) \<Rightarrow> (nat \<Rightarrow> bool option) \<Rightarrow> bool \<Rightarrow> load_result \<times> load_state" where
  "load_block_index cfg env ThreadSafeQuestion fReindex0 =
     load_loop cfg env ThreadSafeQuestion (load_start fReindex0)"


text \<open>
  What the loop returns when an attempt is its last: loaded, \<^verbatim>\<open>InitError\<close>, or the
  double delete.
\<close>

fun fatal_result :: "attempt_outcome \<Rightarrow> load_result" where
  "fatal_result Attempt_loaded = Loaded"
| "fatal_result (Attempt_failed m) = Init_error m"
| "fatal_result (Attempt_init_error m) = Init_error m"
| "fatal_result (Attempt_double_delete p) = Undefined_double_delete p"

definition sound_pass :: pass_env where
  "sound_pass = \<lparr>throws = (\<lambda>line. False), Upgrade_ok = True, nPreviousVersion = 1,
     LoadBlockIndex_ok = True, UpgradeBlockIndex_ok = True, genesis_ok = True,
     InitBlockIndex_ok = True, fTxIndex = False, fHavePruned = False, tip_exists = True,
     RewindBlockIndex_ok = True, tip_from_future = False, VerifyDB_ok = True\<rparr>"

definition plain_config :: load_config where
  "plain_config = \<lparr>txindex_arg = False, fPruneMode = False, resyncforblockindexupgrade = False\<rparr>"

text \<open>
  A data directory written with the transaction index on, started with it off: the
  first pass finds the flags different; the passes after that, made with reindex on,
  find the flag as configured, since the rebuilt index stores the configured value.
\<close>

definition txindex_changed_env :: "nat \<Rightarrow> pass_env" where
  "txindex_changed_env n = (if n = 0 then sound_pass\<lparr>fTxIndex := True\<rparr> else sound_pass)"

text \<open>
  A data directory of a version before 2.0: the first pass upgrades the block index
  and starts over; in the second pass the block tree database cannot be opened.
\<close>

definition upgrade_then_throw_env :: "nat \<Rightarrow> pass_env" where
  "upgrade_then_throw_env n =
     (if n = 0 then sound_pass\<lparr>nPreviousVersion := 0\<rparr>
      else if n = 1 then sound_pass\<lparr>throws := (\<lambda>line. line = 1664)\<rparr>
      else sound_pass)"

subsection \<open>CleanupBlockRevFiles\<close>

text \<open>
  The blocks directory is a list of entries, each a file name with the answer of
  \<^verbatim>\<open>is_regular_file\<close>; the function returns the directory it leaves behind. A file name
  stands for its path, since every path is the directory followed by the name.
  \<^verbatim>\<open>substr(pos, n)\<close> is only called after the length has been found to be 12, so its
  position is in range. \<^verbatim>\<open>atoi\<close> is the C function: white space, an optional sign, then
  digits up to the first character that is not one. \<^verbatim>\<open>remove\<close> is taken to succeed.
\<close>

definition substr :: "string \<Rightarrow> nat \<Rightarrow> nat \<Rightarrow> string" where
  "substr s pos n = take n (drop pos s)"

definition isspace :: "char \<Rightarrow> bool" where
  "isspace c \<longleftrightarrow> c = CHR '' '' \<or> (9 \<le> (of_char c :: nat) \<and> (of_char c :: nat) \<le> 13)"

definition isdigit :: "char \<Rightarrow> bool" where
  "isdigit c \<longleftrightarrow> 48 \<le> (of_char c :: nat) \<and> (of_char c :: nat) \<le> 57"

definition digit_value :: "char \<Rightarrow> int" where
  "digit_value c = int (of_char c) - 48"

fun atoi_digits :: "string \<Rightarrow> int \<Rightarrow> int" where
  "atoi_digits [] acc = acc"
| "atoi_digits (c # cs) acc = (if isdigit c then atoi_digits cs (acc * 10 + digit_value c) else acc)"

definition atoi :: "string \<Rightarrow> int" where
  "atoi s =
     (case dropWhile isspace s of
        [] \<Rightarrow> 0
      | c # cs \<Rightarrow>
          if c = CHR ''-'' then - atoi_digits cs 0
          else if c = CHR ''+'' then atoi_digits cs 0
          else atoi_digits (c # cs) 0)"

type_synonym dir_entry = "string \<times> bool"

definition remove_file :: "string \<Rightarrow> dir_entry list \<Rightarrow> dir_entry list" where
  "remove_file p fs = filter (\<lambda>e. fst e \<noteq> p) fs"

text \<open>
  \<^verbatim>\<open>std::map<std::string, fs::path>\<close> is a list of pairs kept in the order of its keys,
  which are compared as strings, byte by byte. \<open>map_assign k v\<close> is \<^verbatim>\<open>m[k] = v\<close>.
\<close>

fun map_assign :: "string \<Rightarrow> string \<Rightarrow> (string \<times> string) list \<Rightarrow> (string \<times> string) list" where
  "map_assign k v [] = [(k, v)]"
| "map_assign k v ((k', v') # m) =
     (if k < k' then (k, v) # (k', v') # m
      else if k = k' then (k, v) # m
      else (k', v') # map_assign k v m)"

text \<open>
  The first loop, one directory entry at a time: block files go into the map under
  the five characters after \<^verbatim>\<open>blk\<close>, undo files are removed at once.
\<close>

definition glob_entry ::
  "dir_entry \<Rightarrow> (string \<times> string) list \<times> dir_entry list \<Rightarrow> (string \<times> string) list \<times> dir_entry list" where
  "glob_entry e st =
     (if snd e \<and> length (fst e) = 12 \<and> substr (fst e) 8 4 = ''.dat''
      then (if substr (fst e) 0 3 = ''blk''
            then (map_assign (substr (fst e) 3 5) (fst e) (fst st), snd st)
            else if substr (fst e) 0 3 = ''rev''
            then (fst st, remove_file (fst e) (snd st))
            else st)
      else st)"

text \<open>
  The second loop walks the map in key order with \<^verbatim>\<open>nContigCounter\<close> and removes every
  file whose number is not the counter.
\<close>

fun contig_loop :: "(string \<times> string) list \<Rightarrow> int \<Rightarrow> dir_entry list \<Rightarrow> dir_entry list" where
  "contig_loop [] nContigCounter fs = fs"
| "contig_loop ((k, p) # m) nContigCounter fs =
     (if atoi k = nContigCounter
      then contig_loop m (nContigCounter + 1) fs
      else contig_loop m nContigCounter (remove_file p fs))"

definition CleanupBlockRevFiles :: "dir_entry list \<Rightarrow> dir_entry list" where
  "CleanupBlockRevFiles blocksdir =
     (case fold glob_entry blocksdir ([], blocksdir) of
        (mapBlockFiles, fs) \<Rightarrow> contig_loop mapBlockFiles 0 fs)"

definition digits :: "string \<Rightarrow> bool" where
  "digits s \<longleftrightarrow> (\<forall>c \<in> set s. isdigit c)"

definition is_blk_name :: "string \<Rightarrow> bool" where
  "is_blk_name name \<longleftrightarrow> length name = 12 \<and> substr name 8 4 = ''.dat'' \<and> substr name 0 3 = ''blk''"

definition is_rev_name :: "string \<Rightarrow> bool" where
  "is_rev_name name \<longleftrightarrow> length name = 12 \<and> substr name 8 4 = ''.dat'' \<and> substr name 0 3 = ''rev''"

text \<open>The name of block file \<open>n\<close>, as \<^verbatim>\<open>blk%05u.dat\<close> prints it.\<close>

fun pad :: "nat \<Rightarrow> nat \<Rightarrow> string" where
  "pad 0 n = []"
| "pad (Suc w) n = pad w (n div 10) @ [char_of (48 + n mod 10)]"

definition blk_name :: "nat \<Rightarrow> string" where
  "blk_name n = ''blk'' @ pad 5 n @ ''.dat''"

definition blk_files :: "dir_entry list \<Rightarrow> string list" where
  "blk_files d = map fst (filter (\<lambda>e. snd e \<and> is_blk_name (fst e)) d)"

definition rev_files :: "dir_entry list \<Rightarrow> string list" where
  "rev_files d = map fst (filter (\<lambda>e. snd e \<and> is_rev_name (fst e)) d)"

definition name_of_key :: "(string \<times> string) list \<Rightarrow> bool" where
  "name_of_key m \<longleftrightarrow> (\<forall>x \<in> set m. snd x = ''blk'' @ fst x @ ''.dat'')"

fun contig_removed :: "(string \<times> string) list \<Rightarrow> int \<Rightarrow> string list" where
  "contig_removed [] n = []"
| "contig_removed ((k, p) # m) n =
     (if atoi k = n then contig_removed m (n + 1) else p # contig_removed m n)"

text \<open>
  A directory of numbered block files: every regular file named \<^verbatim>\<open>blk?????.dat\<close> has five
  digits in place of the question marks.
\<close>

definition numbered_block_files :: "dir_entry list \<Rightarrow> bool" where
  "numbered_block_files d \<longleftrightarrow>
     (\<forall>e \<in> set d. snd e \<and> is_blk_name (fst e) \<longrightarrow> digits (substr (fst e) 3 5))"

section \<open>Properties\<close>

subsection \<open>CCoinsViewErrorCatcher\<close>

text \<open>
  C1. A lookup whose wrapped view throws a \<^verbatim>\<open>std::runtime_error\<close> (the database's
  read fault) ends the process: the catcher aborts and returns nothing, in particular
  not the flag \<open>False\<close> that means "not found". A lookup whose wrapped view returns
  gives back that very answer, flag and coin.
\<close>

theorem GetCoin_read_fault_aborts:
  "(\<forall>what. backed outpoint coin = Throws (runtime_error what) \<longrightarrow>
      (\<exists>d. CCoinsViewErrorCatcher_GetCoin backed outpoint coin = Aborted d) \<and>
      (\<forall>r. CCoinsViewErrorCatcher_GetCoin backed outpoint coin \<noteq> Returned r)) \<and>
   (\<forall>r. backed outpoint coin = Returns r \<longrightarrow>
      CCoinsViewErrorCatcher_GetCoin backed outpoint coin = Returned r)"
  by (simp add: CCoinsViewErrorCatcher_GetCoin_def)

theorem GetCoin_read_fault_aborts_witness:
  "CCoinsViewErrorCatcher_GetCoin (\<lambda>(p::nat) (c::nat). Throws (runtime_error ''Corruption'')) 7 0
     = Aborted \<lparr>message_box = ''Error reading from database, shutting down.'',
                log_line = ''Error reading from database: Corruption''\<rparr>
   \<and> CCoinsViewErrorCatcher_GetCoin (\<lambda>(p::nat) (c::nat). Throws (runtime_error ''Corruption'')) 7 0
     \<noteq> Returned (False, 0)
   \<and> CCoinsViewErrorCatcher_GetCoin (\<lambda>(p::nat) (c::nat). Returns (False, c)) 7 0
     = Returned (False, 0)"
  using GetCoin_read_fault_aborts
    [of "\<lambda>(p::nat) (c::nat). Throws (runtime_error ''Corruption'')" 7 0]
    GetCoin_read_fault_aborts [of "\<lambda>(p::nat) (c::nat). Returns (False, c)" 7 0]
  by (simp add: CCoinsViewErrorCatcher_GetCoin_def)

subsection \<open>AppInitParameterInteraction: file descriptors\<close>

text \<open>
  The conversion to \<^verbatim>\<open>int\<close> changes nothing in the range of \<^verbatim>\<open>int\<close> and wraps outside it.
\<close>

lemma narrow_int_in_range:
  assumes "- (2 ^ 31) \<le> x" and "x < 2 ^ 31"
  shows "narrow_int x = x"
proof -
  have "(x + 2 ^ 31) mod 2 ^ 32 = x + 2 ^ 31"
    using assms by (intro mod_pos_pos_trivial) simp_all
  then show ?thesis by (simp add: narrow_int_def)
qed

lemma narrow_int_wraps: "narrow_int 4294967297 = 1"
  by (simp add: narrow_int_def)

text \<open>The same function with its local variables named, for the proofs.\<close>

lemma fd_interaction_unfold:
  fixes a :: int and e :: fd_env
  defines "B \<equiv> nSystemMaxConnections e - int (max (bind_count e + whitebind_count e) 1)
        - MIN_CORE_FILEDESCRIPTORS - a"
  defines "m1 \<equiv> max (min (max (narrow_int (maxconnections_arg e)) 0) B) 0"
  defines "fd \<equiv> RaiseFileDescriptorLimit e (m1 + MIN_CORE_FILEDESCRIPTORS + a)"
  shows "fd_interaction a e = (if fd < MIN_CORE_FILEDESCRIPTORS
         then Inl (InitError ''Not enough file descriptors available.'')
         else Inr \<lparr>nMaxConnections = min (fd - MIN_CORE_FILEDESCRIPTORS - a) m1,
                   nUserMaxConnections = narrow_int (maxconnections_arg e), nFD = fd,
                   fd_warnings = (if min (fd - MIN_CORE_FILEDESCRIPTORS - a) m1 < narrow_int (maxconnections_arg e)
                      then [Reducing_maxconnections (narrow_int (maxconnections_arg e))
                              (min (fd - MIN_CORE_FILEDESCRIPTORS - a) m1)] else [])\<rparr>)"
  unfolding fd_interaction_def Let_def fd_def m1_def B_def by (rule refl)

text \<open>
  Two parts of the connection ceiling hold on every path: the result never exceeds the
  larger of zero and the descriptor ceiling less the bind count, the core descriptors
  and the add-node reserve; and fewer descriptors than the core minimum after raising
  the limit is an \<^verbatim>\<open>InitError\<close>.
\<close>

lemma fd_interaction_upper_bound:
  assumes "fd_interaction a e = Inr r"
  shows "nMaxConnections r \<le> max 0 (nSystemMaxConnections e
           - int (max (bind_count e + whitebind_count e) 1) - MIN_CORE_FILEDESCRIPTORS - a)"
proof -
  define B where "B = nSystemMaxConnections e - int (max (bind_count e + whitebind_count e) 1)
        - MIN_CORE_FILEDESCRIPTORS - a"
  define m1 where "m1 = max (min (max (narrow_int (maxconnections_arg e)) 0) B) 0"
  define fd where "fd = RaiseFileDescriptorLimit e (m1 + MIN_CORE_FILEDESCRIPTORS + a)"
  have u: "fd_interaction a e = (if fd < MIN_CORE_FILEDESCRIPTORS
         then Inl (InitError ''Not enough file descriptors available.'')
         else Inr \<lparr>nMaxConnections = min (fd - MIN_CORE_FILEDESCRIPTORS - a) m1,
                   nUserMaxConnections = narrow_int (maxconnections_arg e), nFD = fd,
                   fd_warnings = (if min (fd - MIN_CORE_FILEDESCRIPTORS - a) m1 < narrow_int (maxconnections_arg e)
                      then [Reducing_maxconnections (narrow_int (maxconnections_arg e))
                              (min (fd - MIN_CORE_FILEDESCRIPTORS - a) m1)] else [])\<rparr>)"
    unfolding fd_def m1_def B_def by (rule fd_interaction_unfold)
  from assms have "nMaxConnections r = min (fd - MIN_CORE_FILEDESCRIPTORS - a) m1"
    unfolding u by (cases "fd < MIN_CORE_FILEDESCRIPTORS") auto
  moreover have "m1 \<le> max 0 B" unfolding m1_def by linarith
  ultimately show ?thesis unfolding B_def by linarith
qed

lemma fd_interaction_too_few_descriptors:
  assumes "fd_interaction a e = Inr r"
  shows "MIN_CORE_FILEDESCRIPTORS \<le> nFD r"
proof -
  define B where "B = nSystemMaxConnections e - int (max (bind_count e + whitebind_count e) 1)
        - MIN_CORE_FILEDESCRIPTORS - a"
  define m1 where "m1 = max (min (max (narrow_int (maxconnections_arg e)) 0) B) 0"
  define fd where "fd = RaiseFileDescriptorLimit e (m1 + MIN_CORE_FILEDESCRIPTORS + a)"
  have u: "fd_interaction a e = (if fd < MIN_CORE_FILEDESCRIPTORS
         then Inl (InitError ''Not enough file descriptors available.'')
         else Inr \<lparr>nMaxConnections = min (fd - MIN_CORE_FILEDESCRIPTORS - a) m1,
                   nUserMaxConnections = narrow_int (maxconnections_arg e), nFD = fd,
                   fd_warnings = (if min (fd - MIN_CORE_FILEDESCRIPTORS - a) m1 < narrow_int (maxconnections_arg e)
                      then [Reducing_maxconnections (narrow_int (maxconnections_arg e))
                              (min (fd - MIN_CORE_FILEDESCRIPTORS - a) m1)] else [])\<rparr>)"
    unfolding fd_def m1_def B_def by (rule fd_interaction_unfold)
  from assms show ?thesis
    unfolding u by (cases "fd < MIN_CORE_FILEDESCRIPTORS") auto
qed

text \<open>
  The result is not negative when the raised limit covers the core descriptors and the
  add-node reserve together. The check before it only asks for the core descriptors.
\<close>

lemma fd_interaction_nonneg_if_reserve_covered:
  assumes "fd_interaction a e = Inr r" and "MIN_CORE_FILEDESCRIPTORS + a \<le> nFD r"
  shows "0 \<le> nMaxConnections r"
proof -
  define B where "B = nSystemMaxConnections e - int (max (bind_count e + whitebind_count e) 1)
        - MIN_CORE_FILEDESCRIPTORS - a"
  define m1 where "m1 = max (min (max (narrow_int (maxconnections_arg e)) 0) B) 0"
  define fd where "fd = RaiseFileDescriptorLimit e (m1 + MIN_CORE_FILEDESCRIPTORS + a)"
  have u: "fd_interaction a e = (if fd < MIN_CORE_FILEDESCRIPTORS
         then Inl (InitError ''Not enough file descriptors available.'')
         else Inr \<lparr>nMaxConnections = min (fd - MIN_CORE_FILEDESCRIPTORS - a) m1,
                   nUserMaxConnections = narrow_int (maxconnections_arg e), nFD = fd,
                   fd_warnings = (if min (fd - MIN_CORE_FILEDESCRIPTORS - a) m1 < narrow_int (maxconnections_arg e)
                      then [Reducing_maxconnections (narrow_int (maxconnections_arg e))
                              (min (fd - MIN_CORE_FILEDESCRIPTORS - a) m1)] else [])\<rparr>)"
    unfolding fd_def m1_def B_def by (rule fd_interaction_unfold)
  from assms(1) have "nMaxConnections r = min (fd - MIN_CORE_FILEDESCRIPTORS - a) m1 \<and> nFD r = fd"
    unfolding u by (cases "fd < MIN_CORE_FILEDESCRIPTORS") auto
  moreover have "0 \<le> m1" unfolding m1_def by linarith
  ultimately show ?thesis using assms(2) by linarith
qed

text \<open>
  C9. The connection ceiling is meant to stay within the descriptor budget and not to
  go below zero, and too few descriptors are an error. With eight add-node slots and
  a descriptor limit of 155 that cannot be raised, the check \<^verbatim>\<open>nFD < MIN_CORE_FILEDESCRIPTORS\<close>
  passes (155 is not below 150) and the last \<^verbatim>\<open>std::min\<close> leaves
  \<^verbatim>\<open>nMaxConnections\<close> at 155 - 150 - 8 = -3: initialisation goes on with a negative
  connection ceiling.
\<close>

theorem fd_interaction_negative_ceiling:
  "fd_interaction 8 \<lparr>bind_count = 0, whitebind_count = 0, maxconnections_arg = 125,
       nSystemMaxConnections = 155, RaiseFileDescriptorLimit = (\<lambda>nMinFD. 155)\<rparr>
   = Inr \<lparr>nMaxConnections = - 3, nUserMaxConnections = 125, nFD = 155,
           fd_warnings = [Reducing_maxconnections 125 (- 3)]\<rparr>"
  by (simp add: fd_interaction_def narrow_int_def MIN_CORE_FILEDESCRIPTORS_def Let_def)

subsection \<open>AppInitParameterInteraction: low memory\<close>

lemma soft_set_warn_args:
  "mapArgs (soft_set_warn n v w s) k = (if k = n \<and> mapArgs s k = None then Some v else mapArgs s k)"
  by (auto simp add: soft_set_warn_def SoftSetArg_def)

lemma soft_set_warn_warnings:
  "warnings (soft_set_warn n v w s) = warnings s @ (if mapArgs s n = None then [w] else [])"
  by (simp add: soft_set_warn_def SoftSetArg_def)

lemma soft_set_bool_warn_eq:
  "soft_set_bool_warn n b w s = soft_set_warn n (if b then ''1'' else ''0'') w s"
  by (simp add: soft_set_warn_def soft_set_bool_warn_def SoftSetBoolArg_def)

lemma lowmem_unfold:
  "lowmem_interaction m mem s =
     (if mem \<le> 1073741824
      then soft_set_warn ''-reverseheaders'' ''0'' warn_reverseheaders
            (soft_set_warn ''-rpcthreads'' ''1'' warn_rpcthreads
              (soft_set_warn ''-dbcache'' ''200'' warn_dbcache
                (soft_set_warn ''-maxmempool'' m warn_maxmempool
                  (soft_set_warn ''-maxconnections'' ''40'' warn_maxconnections s))))
      else s)"
  by (simp add: lowmem_interaction_def Let_def soft_set_bool_warn_eq)

lemma soft_set_warn_args_other:
  "k \<noteq> n \<Longrightarrow> mapArgs (soft_set_warn n v w s) k = mapArgs s k"
  by (simp add: soft_set_warn_args)

lemma soft_set_warn_args_other':
  "n \<noteq> k \<Longrightarrow> mapArgs (soft_set_warn n v w s) k = mapArgs s k"
  by (simp add: soft_set_warn_args)

lemma soft_chain_warnings:
  assumes "distinct [n1, n2, n3, n4, n5]"
  shows "warnings (soft_set_warn n5 v5 w5 (soft_set_warn n4 v4 w4 (soft_set_warn n3 v3 w3
           (soft_set_warn n2 v2 w2 (soft_set_warn n1 v1 w1 s))))) =
         warnings s @ (if mapArgs s n1 = None then [w1] else [])
                    @ (if mapArgs s n2 = None then [w2] else [])
                    @ (if mapArgs s n3 = None then [w3] else [])
                    @ (if mapArgs s n4 = None then [w4] else [])
                    @ (if mapArgs s n5 = None then [w5] else [])"
  using assms by (simp add: soft_set_warn_args_other' soft_set_warn_warnings split del: if_split)

lemma lowmem_names_distinct:
  "distinct [''-maxconnections'', ''-maxmempool'', ''-dbcache'', ''-rpcthreads'', ''-reverseheaders'']"
  by simp

lemma soft_chain_spec:
  fixes s :: param_state and n1 n2 n3 n4 n5 v1 v2 v3 v4 v5 w1 w2 w3 w4 w5 :: string
  assumes d: "distinct [n1, n2, n3, n4, n5]"
  defines "s' \<equiv> soft_set_warn n5 v5 w5 (soft_set_warn n4 v4 w4 (soft_set_warn n3 v3 w3
           (soft_set_warn n2 v2 w2 (soft_set_warn n1 v1 w1 s))))"
  shows "mapArgs s' n1 = (case mapArgs s n1 of None \<Rightarrow> Some v1 | Some u \<Rightarrow> Some u) \<and>
         mapArgs s' n2 = (case mapArgs s n2 of None \<Rightarrow> Some v2 | Some u \<Rightarrow> Some u) \<and>
         mapArgs s' n3 = (case mapArgs s n3 of None \<Rightarrow> Some v3 | Some u \<Rightarrow> Some u) \<and>
         mapArgs s' n4 = (case mapArgs s n4 of None \<Rightarrow> Some v4 | Some u \<Rightarrow> Some u) \<and>
         mapArgs s' n5 = (case mapArgs s n5 of None \<Rightarrow> Some v5 | Some u \<Rightarrow> Some u) \<and>
         (\<forall>k. k \<notin> {n1, n2, n3, n4, n5} \<longrightarrow> mapArgs s' k = mapArgs s k) \<and>
         warnings s' = warnings s @ (if mapArgs s n1 = None then [w1] else [])
                    @ (if mapArgs s n2 = None then [w2] else [])
                    @ (if mapArgs s n3 = None then [w3] else [])
                    @ (if mapArgs s n4 = None then [w4] else [])
                    @ (if mapArgs s n5 = None then [w5] else [])"
proof -
  from d have ne: "n1 \<noteq> n2" "n1 \<noteq> n3" "n1 \<noteq> n4" "n1 \<noteq> n5" "n2 \<noteq> n3" "n2 \<noteq> n4" "n2 \<noteq> n5"
    "n3 \<noteq> n4" "n3 \<noteq> n5" "n4 \<noteq> n5" by auto
  note ne' = ne ne [symmetric]
  have one: "\<And>n v w t. mapArgs (soft_set_warn n v w t) n = (case mapArgs t n of None \<Rightarrow> Some v | Some u \<Rightarrow> Some u)"
    by (simp add: soft_set_warn_args split: option.split)
  have 1: "mapArgs s' n1 = (case mapArgs s n1 of None \<Rightarrow> Some v1 | Some u \<Rightarrow> Some u)"
    unfolding s'_def by (simp add: soft_set_warn_args_other ne' one)
  have 2: "mapArgs s' n2 = (case mapArgs s n2 of None \<Rightarrow> Some v2 | Some u \<Rightarrow> Some u)"
    unfolding s'_def by (simp add: soft_set_warn_args_other ne' one)
  have 3: "mapArgs s' n3 = (case mapArgs s n3 of None \<Rightarrow> Some v3 | Some u \<Rightarrow> Some u)"
    unfolding s'_def by (simp add: soft_set_warn_args_other ne' one)
  have 4: "mapArgs s' n4 = (case mapArgs s n4 of None \<Rightarrow> Some v4 | Some u \<Rightarrow> Some u)"
    unfolding s'_def by (simp add: soft_set_warn_args_other ne' one)
  have 5: "mapArgs s' n5 = (case mapArgs s n5 of None \<Rightarrow> Some v5 | Some u \<Rightarrow> Some u)"
    unfolding s'_def by (simp add: soft_set_warn_args_other ne' one)
  have 6: "\<forall>k. k \<notin> {n1, n2, n3, n4, n5} \<longrightarrow> mapArgs s' k = mapArgs s k"
    unfolding s'_def by (simp add: soft_set_warn_args_other)
  have 7: "warnings s' = warnings s @ (if mapArgs s n1 = None then [w1] else [])
                    @ (if mapArgs s n2 = None then [w2] else [])
                    @ (if mapArgs s n3 = None then [w3] else [])
                    @ (if mapArgs s n4 = None then [w4] else [])
                    @ (if mapArgs s n5 = None then [w5] else [])"
    unfolding s'_def by (rule soft_chain_warnings [OF d])
  from 1 2 3 4 5 6 7 show ?thesis by blast
qed

text \<open>
  C4 (as the code has it). When the detected physical memory is at most 1 GiB
  (1073741824 bytes), each of the options \<^verbatim>\<open>-maxconnections\<close>, \<^verbatim>\<open>-maxmempool\<close>,
  \<^verbatim>\<open>-dbcache\<close>, \<^verbatim>\<open>-rpcthreads\<close> and \<^verbatim>\<open>-reverseheaders\<close> that the user did not set is
  set to 40, the low-memory mempool constant, 200, 1 and 0, and one warning is issued
  for each option so set, in that order; an option the user set keeps its value and
  gets no warning; no other option changes. Above 1 GiB nothing changes.
\<close>

theorem lowmem_interaction_overrides:
  "(mem \<le> 1073741824 \<longrightarrow>
     mapArgs (lowmem_interaction m mem s) ''-maxconnections'' =
       (case mapArgs s ''-maxconnections'' of None \<Rightarrow> Some ''40'' | Some u \<Rightarrow> Some u) \<and>
     mapArgs (lowmem_interaction m mem s) ''-maxmempool'' =
       (case mapArgs s ''-maxmempool'' of None \<Rightarrow> Some m | Some u \<Rightarrow> Some u) \<and>
     mapArgs (lowmem_interaction m mem s) ''-dbcache'' =
       (case mapArgs s ''-dbcache'' of None \<Rightarrow> Some ''200'' | Some u \<Rightarrow> Some u) \<and>
     mapArgs (lowmem_interaction m mem s) ''-rpcthreads'' =
       (case mapArgs s ''-rpcthreads'' of None \<Rightarrow> Some ''1'' | Some u \<Rightarrow> Some u) \<and>
     mapArgs (lowmem_interaction m mem s) ''-reverseheaders'' =
       (case mapArgs s ''-reverseheaders'' of None \<Rightarrow> Some ''0'' | Some u \<Rightarrow> Some u) \<and>
     (\<forall>k. k \<notin> {''-maxconnections'', ''-maxmempool'', ''-dbcache'', ''-rpcthreads'', ''-reverseheaders''}
          \<longrightarrow> mapArgs (lowmem_interaction m mem s) k = mapArgs s k) \<and>
     warnings (lowmem_interaction m mem s) = warnings s
        @ (if mapArgs s ''-maxconnections'' = None then [warn_maxconnections] else [])
        @ (if mapArgs s ''-maxmempool'' = None then [warn_maxmempool] else [])
        @ (if mapArgs s ''-dbcache'' = None then [warn_dbcache] else [])
        @ (if mapArgs s ''-rpcthreads'' = None then [warn_rpcthreads] else [])
        @ (if mapArgs s ''-reverseheaders'' = None then [warn_reverseheaders] else []))
   \<and> (1073741824 < mem \<longrightarrow> lowmem_interaction m mem s = s)"
proof -
  have hi: "lowmem_interaction m mem s = s" if "1073741824 < mem"
    using that by (simp add: lowmem_unfold)
  have lo: "mapArgs (lowmem_interaction m mem s) ''-maxconnections'' =
       (case mapArgs s ''-maxconnections'' of None \<Rightarrow> Some ''40'' | Some u \<Rightarrow> Some u) \<and>
     mapArgs (lowmem_interaction m mem s) ''-maxmempool'' =
       (case mapArgs s ''-maxmempool'' of None \<Rightarrow> Some m | Some u \<Rightarrow> Some u) \<and>
     mapArgs (lowmem_interaction m mem s) ''-dbcache'' =
       (case mapArgs s ''-dbcache'' of None \<Rightarrow> Some ''200'' | Some u \<Rightarrow> Some u) \<and>
     mapArgs (lowmem_interaction m mem s) ''-rpcthreads'' =
       (case mapArgs s ''-rpcthreads'' of None \<Rightarrow> Some ''1'' | Some u \<Rightarrow> Some u) \<and>
     mapArgs (lowmem_interaction m mem s) ''-reverseheaders'' =
       (case mapArgs s ''-reverseheaders'' of None \<Rightarrow> Some ''0'' | Some u \<Rightarrow> Some u) \<and>
     (\<forall>k. k \<notin> {''-maxconnections'', ''-maxmempool'', ''-dbcache'', ''-rpcthreads'', ''-reverseheaders''}
          \<longrightarrow> mapArgs (lowmem_interaction m mem s) k = mapArgs s k) \<and>
     warnings (lowmem_interaction m mem s) = warnings s
        @ (if mapArgs s ''-maxconnections'' = None then [warn_maxconnections] else [])
        @ (if mapArgs s ''-maxmempool'' = None then [warn_maxmempool] else [])
        @ (if mapArgs s ''-dbcache'' = None then [warn_dbcache] else [])
        @ (if mapArgs s ''-rpcthreads'' = None then [warn_rpcthreads] else [])
        @ (if mapArgs s ''-reverseheaders'' = None then [warn_reverseheaders] else [])"
    if le: "mem \<le> 1073741824"
  proof -
    have e: "lowmem_interaction m mem s =
       soft_set_warn ''-reverseheaders'' ''0'' warn_reverseheaders
            (soft_set_warn ''-rpcthreads'' ''1'' warn_rpcthreads
              (soft_set_warn ''-dbcache'' ''200'' warn_dbcache
                (soft_set_warn ''-maxmempool'' m warn_maxmempool
                  (soft_set_warn ''-maxconnections'' ''40'' warn_maxconnections s))))"
      using le by (simp only: lowmem_unfold if_True)
    show ?thesis unfolding e by (rule soft_chain_spec [OF lowmem_names_distinct])
  qed
  show ?thesis
    apply (rule conjI)
     apply (rule impI)
     apply (erule lo)
    apply (rule impI)
    apply (erule hi)
    done
qed

theorem lowmem_interaction_overrides_witness:
  "mapArgs (lowmem_interaction ''100'' 536870912
       \<lparr>mapArgs = [''-dbcache'' \<mapsto> ''450''], warnings = []\<rparr>) ''-maxconnections'' = Some ''40''
   \<and> mapArgs (lowmem_interaction ''100'' 536870912
       \<lparr>mapArgs = [''-dbcache'' \<mapsto> ''450''], warnings = []\<rparr>) ''-dbcache'' = Some ''450''
   \<and> warnings (lowmem_interaction ''100'' 536870912
       \<lparr>mapArgs = [''-dbcache'' \<mapsto> ''450''], warnings = []\<rparr>)
       = [warn_maxconnections, warn_maxmempool, warn_rpcthreads, warn_reverseheaders]
   \<and> lowmem_interaction ''100'' 2147483648 \<lparr>mapArgs = [''-dbcache'' \<mapsto> ''450''], warnings = []\<rparr>
       = \<lparr>mapArgs = [''-dbcache'' \<mapsto> ''450''], warnings = []\<rparr>"
  using lowmem_interaction_overrides [of 536870912 "''100''" "\<lparr>mapArgs = [''-dbcache'' \<mapsto> ''450''], warnings = []\<rparr>"]
    lowmem_interaction_overrides [of 2147483648 "''100''" "\<lparr>mapArgs = [''-dbcache'' \<mapsto> ''450''], warnings = []\<rparr>"]
  by simp

text \<open>
  C4 as stated says that hosts at the threshold are left alone. The test in the source
  is \<^verbatim>\<open><=\<close>: a host with exactly 1 GiB gets the low-memory settings.
\<close>

theorem lowmem_at_threshold_counterexample:
  "mapArgs (lowmem_interaction ''100'' 1073741824 \<lparr>mapArgs = Map.empty, warnings = []\<rparr>)
      ''-maxconnections'' = Some ''40''
   \<and> lowmem_interaction ''100'' 1073741824 \<lparr>mapArgs = Map.empty, warnings = []\<rparr>
      \<noteq> \<lparr>mapArgs = Map.empty, warnings = []\<rparr>"
  by (simp add: lowmem_unfold soft_set_warn_def SoftSetArg_def)

subsection \<open>AppInitMain: cache size calculations\<close>

lemma int64_id: "- (2 ^ 63) \<le> x \<Longrightarrow> x < 2 ^ 63 \<Longrightarrow> int64 x = x"
  unfolding int64_def by simp

lemma int64_range: "- (2 ^ 63) \<le> int64 x \<and> int64 x < 2 ^ 63"
proof -
  have "0 \<le> (x + 2 ^ 63) mod 2 ^ 64" "(x + 2 ^ 63) mod 2 ^ 64 < (2 ^ 64 :: int)" by simp_all
  then show ?thesis unfolding int64_def by simp
qed

lemma shl20_id: "0 \<le> x \<Longrightarrow> x < 2 ^ 43 \<Longrightarrow> shl20 x = x * 1048576"
  unfolding shl20_def by (rule trans [OF int64_id]) simp_all

lemma cdiv_nonneg: "0 \<le> a \<Longrightarrow> 0 < b \<Longrightarrow> cdiv a b = a div b"
  by (simp add: cdiv_def)

lemma clamp_total_nonneg:
  assumes "consts_in_range k"
  shows "0 \<le> clamp_total k n" "shl20 (nMinDbCache k) \<le> clamp_total k n" "clamp_total k n \<le> shl20 (nMaxDbCache k)"
proof -
  from assms have a: "shl20 (nMinDbCache k) = nMinDbCache k * 1048576" "shl20 (nMaxDbCache k) = nMaxDbCache k * 1048576"
    by (simp_all add: consts_in_range_def shl20_id)
  from assms have b: "0 \<le> nMinDbCache k" "nMinDbCache k \<le> nMaxDbCache k" by (simp_all add: consts_in_range_def)
  show "0 \<le> clamp_total k n" "shl20 (nMinDbCache k) \<le> clamp_total k n" "clamp_total k n \<le> shl20 (nMaxDbCache k)"
    unfolding clamp_total_def a using b by linarith+
qed

lemma cache_unfold:
  fixes k :: cache_consts and n mp :: int and tx :: bool
  assumes "consts_in_range k"
  defines "T \<equiv> clamp_total k n"
  defines "cb \<equiv> shl20 (if tx then nMaxBlockDBAndTxIndexCache k else nMaxBlockDBCache k)"
  defines "cc \<equiv> shl20 (nMaxCoinsDBCache k)"
  shows "cache_size_calculations k tx n mp =
     \<lparr>nTotalCache = T, nBlockTreeDBCache = fst (split_total cb cc T),
      nCoinDBCache = fst (snd (split_total cb cc T)),
      nCoinCacheUsage = snd (snd (split_total cb cc T)), nMempoolSizeMax = int64 (mp * 1000000)\<rparr>"
proof -
  have T0: "0 \<le> T" unfolding T_def using assms(1) by (rule clamp_total_nonneg)
  have cb0: "0 \<le> cb" unfolding cb_def using assms(1) by (simp add: consts_in_range_def shl20_id)
  have d8: "cdiv T 8 = T div 8" using T0 by (simp add: cdiv_nonneg)
  define bt where "bt = min (T div 8) cb"
  have "bt \<le> T div 8" "0 \<le> bt" unfolding bt_def using T0 cb0 by simp_all
  then have r0: "0 \<le> T - bt" using T0 by linarith
  have d2: "cdiv (T - bt) 2 = (T - bt) div 2" "cdiv (T - bt) 4 = (T - bt) div 4"
    using r0 by (simp_all add: cdiv_nonneg)
  show ?thesis
    unfolding cache_size_calculations_def Let_def split_total_def
    unfolding clamp_total_def [symmetric] T_def [symmetric] d8 cb_def [symmetric] bt_def [symmetric]
      d2 cc_def [symmetric]
    by simp
qed

lemma div_succ_le:
  fixes i c :: int
  assumes "0 < c"
  shows "(i + 1) div c \<le> i div c + 1"
proof -
  have "(i + 1) div c \<le> (i + c) div c" using assms by (intro zdiv_mono1) simp_all
  also have "\<dots> = i div c + 1" using assms div_add_self2 [of c i] by auto
  finally show ?thesis .
qed

lemma sub_div_mono:
  fixes a b c :: int
  assumes "a \<le> b" "0 < c"
  shows "a - a div c \<le> b - b div c"
  using assms(1)
proof (induct b rule: int_ge_induct)
  case base
  show ?case by simp
next
  case (step i)
  from div_succ_le [OF assms(2), of i] step(2) show ?case by linarith
qed

lemma split_total_props:
  assumes "0 \<le> T" "0 \<le> cb" "0 \<le> cc"
  shows "fst (split_total cb cc T) + fst (snd (split_total cb cc T)) + snd (snd (split_total cb cc T)) = T"
    and "fst (split_total cb cc T) = min (T div 8) cb"
    and "\<exists>x. (T - fst (split_total cb cc T)) div 4 \<le> x \<and> x \<le> (T - fst (split_total cb cc T)) div 2
            \<and> fst (snd (split_total cb cc T)) = min x cc"
    and "0 \<le> fst (split_total cb cc T)" "0 \<le> fst (snd (split_total cb cc T))"
        "0 \<le> snd (snd (split_total cb cc T))"
proof -
  define bt where "bt = min (T div 8) cb"
  define r where "r = T - bt"
  define x where "x = min (r div 2) (r div 4 + 8388608)"
  have e: "split_total cb cc T = (bt, min x cc, r - min x cc)"
    unfolding split_total_def Let_def x_def r_def bt_def by simp
  have bt: "0 \<le> bt" "bt \<le> T div 8" unfolding bt_def using assms by simp_all
  then have r0: "0 \<le> r" unfolding r_def using assms(1) by linarith
  have x: "r div 4 \<le> x" "x \<le> r div 2" "0 \<le> x" "x \<le> r" unfolding x_def using r0 by linarith+
  show "fst (split_total cb cc T) + fst (snd (split_total cb cc T)) + snd (snd (split_total cb cc T)) = T"
    unfolding e by (simp add: r_def)
  show "fst (split_total cb cc T) = min (T div 8) cb" unfolding e by (simp add: bt_def)
  show "\<exists>x. (T - fst (split_total cb cc T)) div 4 \<le> x \<and> x \<le> (T - fst (split_total cb cc T)) div 2
            \<and> fst (snd (split_total cb cc T)) = min x cc"
    unfolding e using x by (auto simp add: r_def [symmetric])
  show "0 \<le> fst (split_total cb cc T)" unfolding e using bt by simp
  show "0 \<le> fst (snd (split_total cb cc T))" unfolding e using x assms by simp
  show "0 \<le> snd (snd (split_total cb cc T))" unfolding e using x by simp
qed

lemma split_total_mono:
  assumes "T1 \<le> T2"
  shows "fst (split_total cb cc T1) \<le> fst (split_total cb cc T2)"
    and "fst (snd (split_total cb cc T1)) \<le> fst (snd (split_total cb cc T2))"
    and "snd (snd (split_total cb cc T1)) \<le> snd (snd (split_total cb cc T2))"
proof -
  define b1 where "b1 = min (T1 div 8) cb"
  define b2 where "b2 = min (T2 div 8) cb"
  define r1 where "r1 = T1 - b1"
  define r2 where "r2 = T2 - b2"
  define y1 where "y1 = min (r1 div 2) (r1 div 4 + 8388608)"
  define y2 where "y2 = min (r2 div 2) (r2 div 4 + 8388608)"
  define x1 where "x1 = min y1 cc"
  define x2 where "x2 = min y2 cc"
  have e1: "split_total cb cc T1 = (b1, x1, r1 - x1)"
    unfolding split_total_def Let_def x1_def y1_def r1_def b1_def by simp
  have e2: "split_total cb cc T2 = (b2, x2, r2 - x2)"
    unfolding split_total_def Let_def x2_def y2_def r2_def b2_def by simp
  have d8: "T1 div 8 \<le> T2 div 8" using assms by (simp add: zdiv_mono1)
  then have b: "b1 \<le> b2" unfolding b1_def b2_def by (rule min.mono) simp
  have s8: "T1 - T1 div 8 \<le> T2 - T2 div 8" using assms by (rule sub_div_mono) simp
  have r1e: "r1 = max (T1 - T1 div 8) (T1 - cb)" unfolding r1_def b1_def by (simp add: min_def max_def)
  have r2e: "r2 = max (T2 - T2 div 8) (T2 - cb)" unfolding r2_def b2_def by (simp add: min_def max_def)
  have r: "r1 \<le> r2" unfolding r1e r2e using s8 assms by (intro max.mono) simp_all
  have rd: "r1 div 2 \<le> r2 div 2" "r1 div 4 \<le> r2 div 4" using r by (simp_all add: zdiv_mono1)
  then have y: "y1 \<le> y2" unfolding y1_def y2_def by (intro min.mono) simp_all
  then have x: "x1 \<le> x2" unfolding x1_def x2_def by (intro min.mono) simp_all
  have c2: "r1 - r1 div 2 \<le> r2 - r2 div 2" using r by (rule sub_div_mono) simp
  have c4: "r1 - r1 div 4 \<le> r2 - r2 div 4" using r by (rule sub_div_mono) simp
  have z1: "r1 - x1 = max (max (r1 - r1 div 2) (r1 - r1 div 4 - 8388608)) (r1 - cc)"
    unfolding x1_def y1_def by (simp add: min_def max_def)
  have z2: "r2 - x2 = max (max (r2 - r2 div 2) (r2 - r2 div 4 - 8388608)) (r2 - cc)"
    unfolding x2_def y2_def by (simp add: min_def max_def)
  have c: "r1 - x1 \<le> r2 - x2" unfolding z1 z2 using c2 c4 r by (intro max.mono) simp_all
  show "fst (split_total cb cc T1) \<le> fst (split_total cb cc T2)" unfolding e1 e2 using b by simp
  show "fst (snd (split_total cb cc T1)) \<le> fst (snd (split_total cb cc T2))" unfolding e1 e2 using x by simp
  show "snd (snd (split_total cb cc T1)) \<le> snd (snd (split_total cb cc T2))" unfolding e1 e2 using c by simp
qed

lemma clamp_total_mono:
  "shl20 n \<le> shl20 n' \<Longrightarrow> clamp_total k n \<le> clamp_total k n'"
  unfolding clamp_total_def by (intro min.mono max.mono) simp_all

text \<open>
  C3 (as the code has it). For every requested size the total is clamped between the
  two bounds; the block-index cache, the coin-database cache and the in-memory coin
  cache are not negative and add up to exactly the clamped total; the block-index cache
  is the smaller of an eighth of the total and its cap; the coin-database cache is the
  smaller of its cap and a value between a quarter and a half of what the block-index
  cache leaves; and a larger requested total never makes any component smaller. The
  mempool budget is \<^verbatim>\<open>-maxmempool\<close> times 1000000: it does not depend on the total and
  is not taken out of it.
\<close>

theorem cache_size_calculations_budget:
  assumes ok: "consts_in_range k"
  shows "shl20 (nMinDbCache k) \<le> nTotalCache (cache_size_calculations k tx n mp)
       \<and> nTotalCache (cache_size_calculations k tx n mp) \<le> shl20 (nMaxDbCache k)
       \<and> nBlockTreeDBCache (cache_size_calculations k tx n mp)
           + nCoinDBCache (cache_size_calculations k tx n mp)
           + nCoinCacheUsage (cache_size_calculations k tx n mp)
           = nTotalCache (cache_size_calculations k tx n mp)
       \<and> 0 \<le> nBlockTreeDBCache (cache_size_calculations k tx n mp)
       \<and> 0 \<le> nCoinDBCache (cache_size_calculations k tx n mp)
       \<and> 0 \<le> nCoinCacheUsage (cache_size_calculations k tx n mp)
       \<and> nBlockTreeDBCache (cache_size_calculations k tx n mp)
           = min (nTotalCache (cache_size_calculations k tx n mp) div 8)
                 (shl20 (if tx then nMaxBlockDBAndTxIndexCache k else nMaxBlockDBCache k))
       \<and> (\<exists>x. (nTotalCache (cache_size_calculations k tx n mp)
                  - nBlockTreeDBCache (cache_size_calculations k tx n mp)) div 4 \<le> x
              \<and> x \<le> (nTotalCache (cache_size_calculations k tx n mp)
                  - nBlockTreeDBCache (cache_size_calculations k tx n mp)) div 2
              \<and> nCoinDBCache (cache_size_calculations k tx n mp) = min x (shl20 (nMaxCoinsDBCache k)))
       \<and> nMempoolSizeMax (cache_size_calculations k tx n mp) = int64 (mp * 1000000)
       \<and> (\<forall>n'. shl20 n \<le> shl20 n' \<longrightarrow>
              nBlockTreeDBCache (cache_size_calculations k tx n mp)
                \<le> nBlockTreeDBCache (cache_size_calculations k tx n' mp)
            \<and> nCoinDBCache (cache_size_calculations k tx n mp)
                \<le> nCoinDBCache (cache_size_calculations k tx n' mp)
            \<and> nCoinCacheUsage (cache_size_calculations k tx n mp)
                \<le> nCoinCacheUsage (cache_size_calculations k tx n' mp)
            \<and> nMempoolSizeMax (cache_size_calculations k tx n mp)
                \<le> nMempoolSizeMax (cache_size_calculations k tx n' mp))"
proof -
  define cb where "cb = shl20 (if tx then nMaxBlockDBAndTxIndexCache k else nMaxBlockDBCache k)"
  define cc where "cc = shl20 (nMaxCoinsDBCache k)"
  define T where "T = clamp_total k n"
  have u: "\<And>m. cache_size_calculations k tx m mp =
     \<lparr>nTotalCache = clamp_total k m, nBlockTreeDBCache = fst (split_total cb cc (clamp_total k m)),
      nCoinDBCache = fst (snd (split_total cb cc (clamp_total k m))),
      nCoinCacheUsage = snd (snd (split_total cb cc (clamp_total k m))),
      nMempoolSizeMax = int64 (mp * 1000000)\<rparr>"
    unfolding cb_def cc_def by (rule cache_unfold [OF ok])
  have T0: "0 \<le> T" and Tlo: "shl20 (nMinDbCache k) \<le> T" and Thi: "T \<le> shl20 (nMaxDbCache k)"
    unfolding T_def by (rule clamp_total_nonneg [OF ok])+
  have cb0: "0 \<le> cb" unfolding cb_def using ok by (simp add: consts_in_range_def shl20_id)
  have cc0: "0 \<le> cc" unfolding cc_def using ok by (simp add: consts_in_range_def shl20_id)
  note p = split_total_props [OF T0 cb0 cc0]
  have mono: "fst (split_total cb cc T) \<le> fst (split_total cb cc (clamp_total k n'))
        \<and> fst (snd (split_total cb cc T)) \<le> fst (snd (split_total cb cc (clamp_total k n')))
        \<and> snd (snd (split_total cb cc T)) \<le> snd (snd (split_total cb cc (clamp_total k n')))"
    if "shl20 n \<le> shl20 n'" for n'
  proof -
    from that have "T \<le> clamp_total k n'" unfolding T_def by (rule clamp_total_mono)
    then show ?thesis by (intro conjI split_total_mono)
  qed
  have m': "\<forall>n'. shl20 n \<le> shl20 n' \<longrightarrow>
        fst (split_total cb cc T) \<le> fst (split_total cb cc (clamp_total k n'))
        \<and> fst (snd (split_total cb cc T)) \<le> fst (snd (split_total cb cc (clamp_total k n')))
        \<and> snd (snd (split_total cb cc T)) \<le> snd (snd (split_total cb cc (clamp_total k n')))
        \<and> int64 (mp * 1000000) \<le> int64 (mp * 1000000)"
    using mono by blast
  show ?thesis
    unfolding u T_def [symmetric] cb_def [symmetric] cc_def [symmetric] cache_sizes.simps
    by (intro conjI Tlo Thi p m' refl)
qed

lemma shl20_values:
  "shl20 450 = 471859200" "shl20 1000 = 1048576000" "shl20 4 = 4194304"
  "shl20 16384 = 17179869184" "shl20 2 = 2097152" "shl20 8 = 8388608"
  by (simp_all add: shl20_id)

lemma txdb_consts_in_range: "consts_in_range txdb_consts"
  by (simp add: consts_in_range_def txdb_consts_def)

lemma cache_example:
  "cache_size_calculations txdb_consts False 450 300 =
      \<lparr>nTotalCache = 471859200, nBlockTreeDBCache = 2097152, nCoinDBCache = 8388608,
       nCoinCacheUsage = 461373440, nMempoolSizeMax = 300000000\<rparr>"
proof -
  have c: "clamp_total txdb_consts 450 = 471859200"
    by (simp add: clamp_total_def txdb_consts_def shl20_values)
  have s: "split_total 2097152 8388608 471859200 = (2097152, 8388608, 461373440)"
    by (simp add: split_total_def)
  have m: "int64 (300 * 1000000) = 300000000" by (rule trans [OF int64_id]) simp_all
  show ?thesis
    unfolding cache_unfold [OF txdb_consts_in_range] c m
    by (simp add: txdb_consts_def shl20_values s)
qed

theorem cache_size_calculations_budget_witness:
  "cache_size_calculations txdb_consts False 450 300 =
      \<lparr>nTotalCache = 471859200, nBlockTreeDBCache = 2097152, nCoinDBCache = 8388608,
       nCoinCacheUsage = 461373440, nMempoolSizeMax = 300000000\<rparr>
   \<and> nCoinCacheUsage (cache_size_calculations txdb_consts False 450 300)
      \<le> nCoinCacheUsage (cache_size_calculations txdb_consts False 1000 300)"
proof -
  have le: "shl20 450 \<le> shl20 1000" by (simp add: shl20_values)
  from cache_size_calculations_budget [OF txdb_consts_in_range, of False 450 300] le cache_example
  show ?thesis by blast
qed

text \<open>
  C3 as stated counts the mempool budget among the components that stay within the
  total. With the defaults (450 MiB of cache, 300 MB of mempool) the three caches
  already use the whole total and the mempool budget comes on top.
\<close>

theorem cache_four_components_exceed_total_counterexample:
  "\<not> (nBlockTreeDBCache (cache_size_calculations txdb_consts False 450 300)
      + nCoinDBCache (cache_size_calculations txdb_consts False 450 300)
      + nCoinCacheUsage (cache_size_calculations txdb_consts False 450 300)
      + nMempoolSizeMax (cache_size_calculations txdb_consts False 450 300)
      \<le> nTotalCache (cache_size_calculations txdb_consts False 450 300))"
  unfolding cache_example by simp

subsection \<open>ThreadImport\<close>

lemma emit_simps [simp]:
  "events (emit ev s) = events s @ [ev]"
  "fReindex (emit ev s) = fReindex s"
  "bootstrap_dat (emit ev s) = bootstrap_dat s"
  "bootstrap_dat_old (emit ev s) = bootstrap_dat_old s"
  "fDumpMempoolLater (emit ev s) = fDumpMempoolLater s"
  by (simp_all add: emit_def)

lemma reindex_loop_eq:
  "reindex_loop fs n s =
     s\<lparr>events := events s @ map Reindex_block_file [n ..< n + usable_prefix (drop n fs)]\<rparr>"
proof (induction fs n s rule: reindex_loop.induct)
  case (1 fs n s)
  show ?case
  proof (cases "block_file_status fs n = Openable")
    case True
    then have n: "n < length fs" and v: "fs ! n = Openable"
      by (auto simp add: block_file_status_def split: if_splits)
    then have d: "drop n fs = Openable # drop (Suc n) fs"
      using Cons_nth_drop_Suc [of n fs] by simp
    have u: "usable_prefix (drop n fs) = Suc (usable_prefix (drop (Suc n) fs))"
      unfolding d usable_prefix_def by simp
    have "reindex_loop fs n s = reindex_loop fs (n + 1) (emit (Reindex_block_file n) s)"
      using True by (subst reindex_loop.simps) simp
    also have "\<dots> = (emit (Reindex_block_file n) s)\<lparr>events := events (emit (Reindex_block_file n) s)
        @ map Reindex_block_file [n + 1 ..< n + 1 + usable_prefix (drop (n + 1) fs)]\<rparr>"
      using True by (rule "1.IH")
    also have "\<dots> = s\<lparr>events := events s @ map Reindex_block_file [n ..< n + usable_prefix (drop n fs)]\<rparr>"
      unfolding u by (simp add: emit_def upt_conv_Cons)
    finally show ?thesis .
  next
    case False
    then have r: "reindex_loop fs n s = s"
      by (subst reindex_loop.simps) (simp split: file_status.split)
    have "usable_prefix (drop n fs) = 0"
    proof (cases "n < length fs")
      case True
      with False have "fs ! n \<noteq> Openable" by (simp add: block_file_status_def)
      with True have "takeWhile (\<lambda>st. st = Openable) (fs ! n # drop (Suc n) fs) = []" by simp
      with True show ?thesis
        by (simp add: usable_prefix_def Cons_nth_drop_Suc)
    next
      case False
      then show ?thesis by (simp add: usable_prefix_def)
    qed
    with r show ?thesis by simp
  qed
qed

lemma reindex_step_fields:
  "events (reindex_step e s) = events s @
     (if fReindex s then map Reindex_block_file [0 ..< usable_prefix (block_files e)]
             @ [WriteReindexing_false, InitBlockIndex] else [])"
  "bootstrap_dat (reindex_step e s) = bootstrap_dat s"
  "bootstrap_dat_old (reindex_step e s) = bootstrap_dat_old s"
  "fDumpMempoolLater (reindex_step e s) = fDumpMempoolLater s"
  "fReindex (reindex_step e s) = False"
  by (simp_all add: reindex_step_def reindex_loop_eq Let_def)

lemma bootstrap_step_fields:
  "events (bootstrap_step e s) = events s @
     (case bootstrap_dat s of Missing \<Rightarrow> [] | Unopenable \<Rightarrow> [Warn_bootstrap]
        | Openable \<Rightarrow> [Import_bootstrap, Rename_bootstrap])"
  "bootstrap_dat (bootstrap_step e s) =
     (if bootstrap_dat s = Openable \<and> rename_ok e then Missing else bootstrap_dat s)"
  "bootstrap_dat_old (bootstrap_step e s) =
     (if bootstrap_dat s = Openable \<and> rename_ok e then True else bootstrap_dat_old s)"
  "fDumpMempoolLater (bootstrap_step e s) = fDumpMempoolLater s"
  "fReindex (bootstrap_step e s) = fReindex s"
  by (simp_all add: bootstrap_step_def Let_def split: file_status.split)

lemma loadblock_fold_fields:
  "events (fold (loadblock_step e) files s) = events s @
      map (\<lambda>path. if can_open e path then Import_file path else Warn_file path) files"
  "bootstrap_dat (fold (loadblock_step e) files s) = bootstrap_dat s"
  "bootstrap_dat_old (fold (loadblock_step e) files s) = bootstrap_dat_old s"
  "fDumpMempoolLater (fold (loadblock_step e) files s) = fDumpMempoolLater s"
  "fReindex (fold (loadblock_step e) files s) = fReindex s"
  by (induction files arbitrary: s; simp add: loadblock_step_def)+

lemma activate_step_fields:
  "events (activate_step e s) = events s @ [ActivateBestChain]
      @ (if ActivateBestChain_ok e then [] else [App_shutdown])"
  "bootstrap_dat (activate_step e s) = bootstrap_dat s"
  "bootstrap_dat_old (activate_step e s) = bootstrap_dat_old s"
  "fDumpMempoolLater (activate_step e s) = fDumpMempoolLater s"
  "fReindex (activate_step e s) = fReindex s"
  by (simp_all add: activate_step_def Let_def)

lemma stopafter_step_fields:
  "events (stopafter_step e s) = events s @ (if stopafterblockimport e then [App_shutdown] else [])"
  "bootstrap_dat (stopafter_step e s) = bootstrap_dat s"
  "bootstrap_dat_old (stopafter_step e s) = bootstrap_dat_old s"
  "fDumpMempoolLater (stopafter_step e s) = fDumpMempoolLater s"
  "fReindex (stopafter_step e s) = fReindex s"
  by (simp_all add: stopafter_step_def)

lemma mempool_step_fields:
  "events (mempool_step e s) = events s @ (if persistmempool e then [LoadMempool] else [])"
  "bootstrap_dat (mempool_step e s) = bootstrap_dat s"
  "bootstrap_dat_old (mempool_step e s) = bootstrap_dat_old s"
  "fDumpMempoolLater (mempool_step e s) =
     (if persistmempool e then \<not> ShutdownRequested_after_load e else fDumpMempoolLater s)"
  "fReindex (mempool_step e s) = fReindex s"
  by (simp_all add: mempool_step_def Let_def)

lemmas import_step_fields = reindex_step_fields bootstrap_step_fields loadblock_fold_fields
  activate_step_fields stopafter_step_fields mempool_step_fields

lemma ThreadImport_events:
  "events (ThreadImport files e s) = events s @ import_order files e s"
  by (simp add: ThreadImport_def Let_def import_step_fields import_order_def)

lemma ThreadImport_bootstrap:
  "bootstrap_dat (ThreadImport files e s) =
     (if bootstrap_dat s = Openable \<and> rename_ok e then Missing else bootstrap_dat s)"
  by (simp add: ThreadImport_def Let_def import_step_fields)

lemma ThreadImport_fDumpMempoolLater:
  "fDumpMempoolLater (ThreadImport files e s) =
     (if persistmempool e then \<not> ShutdownRequested_after_load e else fDumpMempoolLater s)"
  by (simp add: ThreadImport_def Let_def import_step_fields)

lemma usable_prefix_spec:
  "(\<forall>i < usable_prefix fs. block_file_status fs i = Openable)
   \<and> block_file_status fs (usable_prefix fs) \<noteq> Openable"
proof -
  let ?P = "\<lambda>st. st = Openable"
  have a: "\<forall>i < usable_prefix fs. block_file_status fs i = Openable"
  proof (intro allI impI)
    fix i assume i: "i < usable_prefix fs"
    then have l: "i < length (takeWhile ?P fs)" by (simp add: usable_prefix_def)
    have "length (takeWhile ?P fs) \<le> length fs" by (rule length_takeWhile_le)
    with l have n: "i < length fs" by simp
    from l have "takeWhile ?P fs ! i \<in> set (takeWhile ?P fs)" by (rule nth_mem)
    then have "takeWhile ?P fs ! i = Openable" by (auto dest: set_takeWhileD)
    moreover from l have "takeWhile ?P fs ! i = fs ! i" by (rule takeWhile_nth)
    ultimately show "block_file_status fs i = Openable"
      using n by (simp add: block_file_status_def)
  qed
  have b: "block_file_status fs (usable_prefix fs) \<noteq> Openable"
  proof (cases "usable_prefix fs < length fs")
    case True
    then show ?thesis
      using nth_length_takeWhile [of ?P fs] by (simp add: block_file_status_def usable_prefix_def)
  next
    case False
    then show ?thesis by (simp add: block_file_status_def)
  qed
  from a b show ?thesis by blast
qed

text \<open>
  C6 (as the code has it). The import thread handles its sources in this order: when
  reindexing, the numbered block files from 0 up to, and not including, the first
  number whose file is missing or cannot be opened; then the bootstrap file if it is
  there and opens, followed by the attempt to rename it, after which (the rename
  succeeding) no later run finds it to load again; then the import files in the order
  given, each one that opens; and only then \<^verbatim>\<open>ActivateBestChain\<close>, whose failure makes
  the thread ask the application to shut down and carry on, not return an error.
\<close>

theorem ThreadImport_order:
  "events (ThreadImport files e s) = events s @ import_order files e s
   \<and> (\<forall>i < usable_prefix (block_files e). block_file_status (block_files e) i = Openable)
   \<and> block_file_status (block_files e) (usable_prefix (block_files e)) \<noteq> Openable
   \<and> (bootstrap_dat s = Openable \<and> rename_ok e \<longrightarrow>
         bootstrap_dat (ThreadImport files e s) = Missing \<and>
         (\<forall>files' e'. Import_bootstrap \<notin> set (import_order files' e' (ThreadImport files e s))))"
proof -
  have later: "Import_bootstrap \<notin> set (import_order files' e' t)" if "bootstrap_dat t = Missing"
    for files' e' t
    using that by (auto simp add: import_order_def)
  have b: "bootstrap_dat s = Openable \<and> rename_ok e \<longrightarrow>
         bootstrap_dat (ThreadImport files e s) = Missing \<and>
         (\<forall>files' e'. Import_bootstrap \<notin> set (import_order files' e' (ThreadImport files e s)))"
    using later by (simp add: ThreadImport_bootstrap)
  from ThreadImport_events usable_prefix_spec b show ?thesis by blast
qed

theorem ThreadImport_order_witness:
  "events (ThreadImport [''a.dat'', ''b.dat''] import_example_env import_example_state) =
     [Reindex_block_file 0, Reindex_block_file 1, WriteReindexing_false, InitBlockIndex,
      Import_bootstrap, Rename_bootstrap, Import_file ''a.dat'', Warn_file ''b.dat'',
      ActivateBestChain, App_shutdown, LoadMempool]
   \<and> bootstrap_dat (ThreadImport [''a.dat'', ''b.dat''] import_example_env import_example_state) = Missing
   \<and> Import_bootstrap \<notin> set (import_order [] import_example_env
        (ThreadImport [''a.dat'', ''b.dat''] import_example_env import_example_state))"
proof -
  have u: "usable_prefix [Openable, Openable] = 2" by (simp add: usable_prefix_def)
  have o: "import_order [''a.dat'', ''b.dat''] import_example_env import_example_state =
     [Reindex_block_file 0, Reindex_block_file 1, WriteReindexing_false, InitBlockIndex,
      Import_bootstrap, Rename_bootstrap, Import_file ''a.dat'', Warn_file ''b.dat'',
      ActivateBestChain, App_shutdown, LoadMempool]"
    by (simp add: import_order_def import_example_env_def import_example_state_def u upt_rec)
  have h: "bootstrap_dat import_example_state = Openable \<and> rename_ok import_example_env"
    by (simp add: import_example_env_def import_example_state_def)
  have e0: "events import_example_state = []" by (simp add: import_example_state_def)
  from ThreadImport_order [of "[''a.dat'', ''b.dat'']" import_example_env import_example_state] h
  show ?thesis unfolding o e0 by simp
qed

text \<open>
  C6 as stated lets the reindex scan run up to the first missing file. With files 0, 1
  and 2 present and file 1 not openable, the scan stops after file 0: file 2 is there
  and readable, the first missing number is 3, and file 2 is not loaded.
\<close>

theorem ThreadImport_stops_before_first_missing_counterexample:
  "events (ThreadImport [] unopenable_example_env unopenable_example_state) =
     [Reindex_block_file 0, WriteReindexing_false, InitBlockIndex, ActivateBestChain]
   \<and> block_file_status (block_files unopenable_example_env) 1 \<noteq> Missing
   \<and> block_file_status (block_files unopenable_example_env) 2 = Openable
   \<and> block_file_status (block_files unopenable_example_env) 3 = Missing"
proof -
  have u: "usable_prefix [Openable, Unopenable, Openable] = 1" by (simp add: usable_prefix_def)
  have "import_order [] unopenable_example_env unopenable_example_state =
     [Reindex_block_file 0, WriteReindexing_false, InitBlockIndex, ActivateBestChain]"
    by (simp add: import_order_def unopenable_example_env_def unopenable_example_state_def u)
  then show ?thesis
    by (simp add: ThreadImport_events unopenable_example_env_def unopenable_example_state_def
        block_file_status_def)
qed

subsection \<open>CoreShutdown\<close>

lemma DumpMempool_iff:
  "DumpMempool \<in> set (CoreShutdown_actions g) \<longleftrightarrow> dump_later g \<and> persistmempool_arg g"
  by (auto simp add: CoreShutdown_actions_def)

text \<open>
  C10. Shutdown writes the mempool exactly when \<^verbatim>\<open>-persistmempool\<close> is on, the import
  thread got to its mempool load (which it does with the option on) and
  \<^verbatim>\<open>ShutdownRequested()\<close>, asked right after the load returned, answered no. A request
  for shutdown that came before or during the load makes that answer yes, and an
  import thread that never reached the load leaves the flag false: in both cases
  nothing is written.
\<close>

theorem mempool_dump_only_after_completed_load:
  "DumpMempool \<in> set (CoreShutdown_actions (g\<lparr>dump_later := flag_at_shutdown r\<rparr>)) \<longleftrightarrow>
     persistmempool_arg g \<and>
     (\<exists>files e s. r = Load_step_done files e s \<and> persistmempool e \<and> \<not> ShutdownRequested_after_load e)"
  by (cases r) (auto simp add: DumpMempool_iff flag_at_shutdown_def ThreadImport_fDumpMempoolLater)

theorem mempool_dump_only_after_completed_load_witness:
  "DumpMempool \<in> set (CoreShutdown_actions (shutdown_example_globals
      \<lparr>dump_later := flag_at_shutdown (Load_step_done [] (import_example_env
          \<lparr>ShutdownRequested_after_load := False\<rparr>) import_example_state)\<rparr>))
   \<and> DumpMempool \<notin> set (CoreShutdown_actions (shutdown_example_globals
      \<lparr>dump_later := flag_at_shutdown (Load_step_done [] import_example_env import_example_state)\<rparr>))
   \<and> DumpMempool \<notin> set (CoreShutdown_actions (shutdown_example_globals
      \<lparr>dump_later := flag_at_shutdown Load_step_not_reached\<rparr>))"
  using mempool_dump_only_after_completed_load [where g = shutdown_example_globals and
      r = "Load_step_done [] (import_example_env\<lparr>ShutdownRequested_after_load := False\<rparr>) import_example_state"]
    mempool_dump_only_after_completed_load [where g = shutdown_example_globals and
      r = "Load_step_done [] import_example_env import_example_state"]
    mempool_dump_only_after_completed_load [where g = shutdown_example_globals and r = Load_step_not_reached]
  by (simp add: shutdown_example_globals_def import_example_env_def)

subsection \<open>Overlapping calls of CoreShutdown\<close>

text \<open>
  Run by one call from the globals \<open>g\<close>, the statements carry out the actions listed by
  \<open>CoreShutdown_actions g\<close>: within one call every guard is read before the statement
  that changes it.
\<close>

lemma CoreShutdown_body_run:
  "run_body CoreShutdown_body g = (CoreShutdown_actions g, globals_after_CoreShutdown g)"
  unfolding CoreShutdown_body_def CoreShutdown_actions_def globals_after_CoreShutdown_def
  by (simp add: does_def does_if_def)


lemma run_body_append:
  "run_body (xs @ ys) g =
     (case run_body xs g of (as, g') \<Rightarrow> (case run_body ys g' of (bs, g'') \<Rightarrow> (as @ bs, g'')))"
  by (induction xs arbitrary: g) (simp_all split: prod.splits)

lemma run_body_take_Suc:
  assumes "i < length body"
  shows "run_body (take (Suc i) body) g =
     (case run_body (take i body) g of (as, g') \<Rightarrow>
        (case (body ! i) g' of (bs, g'') \<Rightarrow> (as @ bs, g'')))"
  using assms by (simp add: take_Suc_conv_app_nth run_body_append split: prod.splits)

lemma run_body_take_prefix:
  "\<exists>n. fst (run_body (take i body) g) = take n (fst (run_body body g))"
proof -
  have "run_body body g = run_body (take i body @ drop i body) g" by simp
  also have "\<dots> = (case run_body (take i body) g of (as, g') \<Rightarrow>
      (case run_body (drop i body) g' of (bs, g'') \<Rightarrow> (as @ bs, g'')))"
    by (rule run_body_append)
  finally have "fst (run_body (take i body) g)
      = take (length (fst (run_body (take i body) g))) (fst (run_body body g))"
    by (simp split: prod.splits)
  then show ?thesis ..
qed

lemma shutdown_inv_init: "shutdown_inv body g (shutdown_init g)"
  by (simp add: shutdown_inv_def shutdown_init_def)

lemma no_completed_beside_running:
  assumes "h d = Completed \<and> (\<forall>d'. d' \<noteq> d \<longrightarrow> h d' \<noteq> Completed \<and> (\<forall>j. h d' \<noteq> Running j))"
    and "h c = Running k"
  shows False
proof (cases "d = c")
  case True
  with assms show False by simp
next
  case False
  with assms(1) have "\<forall>j. h c \<noteq> Running j" by simp
  with assms(2) show False by simp
qed

lemma shutdown_inv_stutter:
  assumes inv: "shutdown_inv body g0 s"
    and f: "cs_Shutdown s' = cs_Shutdown s" "performed s' = performed s" "globals s' = globals s"
      "calls s' = (calls s)(c := y)"
    and x: "calls s c \<noteq> Completed" "\<And>i. calls s c \<noteq> Running i"
    and y: "y \<noteq> Completed" "\<And>i. y \<noteq> Running i"
  shows "shutdown_inv body g0 s'"
proof -
  have same: "calls s' d = Completed \<longleftrightarrow> calls s d = Completed"
    "calls s' d = Running i \<longleftrightarrow> calls s d = Running i" for d i
    using f(4) x y by auto
  show ?thesis using inv unfolding shutdown_inv_def f(1-3) same .
qed

lemma shutdown_inv_advance:
  assumes inv: "shutdown_inv body g0 s"
  shows "shutdown_inv body g0 (advance body c s)"
proof -
  from inv have l: "\<And>d. (cs_Shutdown s = Some d) = (\<exists>i. calls s d = Running i)"
    and b: "\<And>d i. calls s d = Running i \<Longrightarrow> i \<le> length body"
    and p: "\<And>d a. (d, a) \<in> set (performed s) \<Longrightarrow> (\<exists>i. calls s d = Running i) \<or> calls s d = Completed"
    and i1: "(\<forall>d. calls s d \<noteq> Completed) \<Longrightarrow> cs_Shutdown s = None \<Longrightarrow> performed s = [] \<and> globals s = g0"
    and i1': "\<And>d i. (\<forall>d. calls s d \<noteq> Completed) \<Longrightarrow> calls s d = Running i \<Longrightarrow>
           performed s = map (Pair d) (fst (run_body (take i body) g0)) \<and>
           globals s = snd (run_body (take i body) g0)"
    and i2: "\<And>d. calls s d = Completed \<Longrightarrow>
         (\<forall>d'. d' \<noteq> d \<longrightarrow> calls s d' \<noteq> Completed \<and> (\<forall>i. calls s d' \<noteq> Running i)) \<Longrightarrow>
         performed s = map (Pair d) (fst (run_body body g0)) \<and> globals s = snd (run_body body g0)"
    unfolding shutdown_inv_def by blast+
  show ?thesis
  proof (cases "calls s c")
    case Not_called
    then have "advance body c s = s\<lparr>calls := (calls s)(c := Before_try_lock)\<rparr>"
      by (simp add: advance_def)
    then show ?thesis using Not_called
      by (intro shutdown_inv_stutter [OF inv, where c = c and y = Before_try_lock]) simp_all
  next
    case Before_try_lock
    show ?thesis
    proof (cases "cs_Shutdown s")
      case None
      with Before_try_lock have a: "advance body c s
          = s\<lparr>cs_Shutdown := Some c, calls := (calls s)(c := Running 0)\<rparr>"
        by (simp add: advance_def)
      have f: "cs_Shutdown (advance body c s) = Some c" "performed (advance body c s) = performed s"
        "globals (advance body c s) = globals s" "calls (advance body c s) = (calls s)(c := Running 0)"
        by (simp_all add: a)
      from None l have nr: "\<And>d i. calls s d \<noteq> Running i" by auto
      have nc: "\<forall>d. calls s d \<noteq> Completed" if h: "\<forall>d. ((calls s)(c := Running 0)) d \<noteq> Completed"
      proof
        fix d from h have "((calls s)(c := Running 0)) d \<noteq> Completed" by blast
        with Before_try_lock show "calls s d \<noteq> Completed" by (cases "d = c") auto
      qed
      show ?thesis unfolding shutdown_inv_def f
      proof (intro conjI allI impI)
        fix d show "(Some c = Some d) = (\<exists>i. ((calls s)(c := Running 0)) d = Running i)"
          using nr by auto
      next
        fix d i assume "((calls s)(c := Running 0)) d = Running i"
        then show "i \<le> length body" using nr by (auto split: if_splits)
      next
        fix d a assume "(d, a) \<in> set (performed s)"
        from p [OF this] nr have "calls s d = Completed" by blast
        then show "(\<exists>i. ((calls s)(c := Running 0)) d = Running i) \<or> ((calls s)(c := Running 0)) d = Completed"
          by auto
      next
        assume "Some c = None"
        then show "performed s = []" by simp
      next
        assume "Some c = None"
        then show "globals s = g0" by simp
      next
        fix d i
        assume h: "\<forall>d. ((calls s)(c := Running 0)) d \<noteq> Completed"
          and r: "((calls s)(c := Running 0)) d = Running i"
        from r nr have di: "d = c" "i = 0" by (auto split: if_splits)
        from i1 [OF nc [OF h] None] di
        show "performed s = map (Pair d) (fst (run_body (take i body) g0))" by simp
      next
        fix d i
        assume h: "\<forall>d. ((calls s)(c := Running 0)) d \<noteq> Completed"
          and r: "((calls s)(c := Running 0)) d = Running i"
        from r nr have di: "d = c" "i = 0" by (auto split: if_splits)
        from i1 [OF nc [OF h] None] di
        show "globals s = snd (run_body (take i body) g0)" by simp
      next
        fix d
        assume "((calls s)(c := Running 0)) d = Completed \<and>
           (\<forall>d'. d' \<noteq> d \<longrightarrow> ((calls s)(c := Running 0)) d' \<noteq> Completed
              \<and> (\<forall>i. ((calls s)(c := Running 0)) d' \<noteq> Running i))"
        then have False by (rule no_completed_beside_running [where c = c]) simp
        then show "performed s = map (Pair d) (fst (run_body body g0))" by simp
      next
        fix d
        assume "((calls s)(c := Running 0)) d = Completed \<and>
           (\<forall>d'. d' \<noteq> d \<longrightarrow> ((calls s)(c := Running 0)) d' \<noteq> Completed
              \<and> (\<forall>i. ((calls s)(c := Running 0)) d' \<noteq> Running i))"
        then have False by (rule no_completed_beside_running [where c = c]) simp
        then show "globals s = snd (run_body body g0)" by simp
      qed
    next
      case (Some owner)
      with Before_try_lock have "advance body c s = s\<lparr>calls := (calls s)(c := Returned_at_once)\<rparr>"
        by (simp add: advance_def)
      then show ?thesis using Before_try_lock
        by (intro shutdown_inv_stutter [OF inv, where c = c and y = Returned_at_once]) simp_all
    qed
  next
    case (Running i)
    with l have own: "cs_Shutdown s = Some c" by auto
    have others: "calls s d \<noteq> Running j" if "d \<noteq> c" for d j
    proof
      assume "calls s d = Running j"
      then have "cs_Shutdown s = Some d" using l [of d] by blast
      with own that show False by simp
    qed
    from Running b have i: "i \<le> length body" by auto
    show ?thesis
    proof (cases "i < length body")
      case True
      obtain as g' where st: "(body ! i) (globals s) = (as, g')" by (cases "(body ! i) (globals s)")
      with True Running have a: "advance body c s =
          s\<lparr>calls := (calls s)(c := Running (Suc i)), globals := g',
            performed := performed s @ map (Pair c) as\<rparr>"
        by (simp add: advance_def)
      have f: "cs_Shutdown (advance body c s) = Some c"
        "performed (advance body c s) = performed s @ map (Pair c) as"
        "globals (advance body c s) = g'"
        "calls (advance body c s) = (calls s)(c := Running (Suc i))"
        by (simp_all add: a own)
      have nc: "\<forall>d. calls s d \<noteq> Completed" if h: "\<forall>d. ((calls s)(c := Running (Suc i))) d \<noteq> Completed"
      proof
        fix d from h have "((calls s)(c := Running (Suc i))) d \<noteq> Completed" by blast
        with Running show "calls s d \<noteq> Completed" by (cases "d = c") auto
      qed
      have step: "performed s @ map (Pair c) as = map (Pair d) (fst (run_body (take j body) g0))
          \<and> g' = snd (run_body (take j body) g0)"
        if h: "\<forall>d. ((calls s)(c := Running (Suc i))) d \<noteq> Completed"
          and r: "((calls s)(c := Running (Suc i))) d = Running j" for d j
      proof -
        from r others have dj: "d = c" "j = Suc i" by (auto split: if_splits)
        from i1' [OF nc [OF h] Running]
        have k: "performed s = map (Pair c) (fst (run_body (take i body) g0))"
          "globals s = snd (run_body (take i body) g0)" by simp_all
        from run_body_take_Suc [OF True, of g0] st k(2)
        have "run_body (take (Suc i) body) g0 = (fst (run_body (take i body) g0) @ as, g')"
          by (simp split: prod.splits)
        with k dj show ?thesis by simp
      qed
      have never: False
        if "((calls s)(c := Running (Suc i))) d = Completed \<and>
           (\<forall>d'. d' \<noteq> d \<longrightarrow> ((calls s)(c := Running (Suc i))) d' \<noteq> Completed
              \<and> (\<forall>j. ((calls s)(c := Running (Suc i))) d' \<noteq> Running j))" for d
        using that by (rule no_completed_beside_running [where c = c]) simp
      show ?thesis unfolding shutdown_inv_def f
      proof (intro conjI allI impI)
        fix d show "(Some c = Some d) = (\<exists>j. ((calls s)(c := Running (Suc i))) d = Running j)"
          using others by auto
      next
        fix d j assume "((calls s)(c := Running (Suc i))) d = Running j"
        then show "j \<le> length body" using True others by (auto split: if_splits)
      next
        fix d a assume "(d, a) \<in> set (performed s @ map (Pair c) as)"
        then have "(d, a) \<in> set (performed s) \<or> d = c" by auto
        then show "(\<exists>j. ((calls s)(c := Running (Suc i))) d = Running j)
            \<or> ((calls s)(c := Running (Suc i))) d = Completed"
          using p [of d a] by auto
      next
        assume "Some c = None"
        then show "performed s @ map (Pair c) as = []" by simp
      next
        assume "Some c = None"
        then show "g' = g0" by simp
      next
        fix d j
        assume "\<forall>d. ((calls s)(c := Running (Suc i))) d \<noteq> Completed"
          and "((calls s)(c := Running (Suc i))) d = Running j"
        then show "performed s @ map (Pair c) as = map (Pair d) (fst (run_body (take j body) g0))"
          using step by blast
      next
        fix d j
        assume "\<forall>d. ((calls s)(c := Running (Suc i))) d \<noteq> Completed"
          and "((calls s)(c := Running (Suc i))) d = Running j"
        then show "g' = snd (run_body (take j body) g0)"
          using step by blast
      next
        fix d
        assume "((calls s)(c := Running (Suc i))) d = Completed \<and>
           (\<forall>d'. d' \<noteq> d \<longrightarrow> ((calls s)(c := Running (Suc i))) d' \<noteq> Completed
              \<and> (\<forall>j. ((calls s)(c := Running (Suc i))) d' \<noteq> Running j))"
        then show "performed s @ map (Pair c) as = map (Pair d) (fst (run_body body g0))"
          using never by blast
      next
        fix d
        assume "((calls s)(c := Running (Suc i))) d = Completed \<and>
           (\<forall>d'. d' \<noteq> d \<longrightarrow> ((calls s)(c := Running (Suc i))) d' \<noteq> Completed
              \<and> (\<forall>j. ((calls s)(c := Running (Suc i))) d' \<noteq> Running j))"
        then show "g' = snd (run_body body g0)"
          using never by blast
      qed
    next
      case False
      with i have e: "i = length body" by simp
      from False Running have a: "advance body c s = s\<lparr>cs_Shutdown := None, calls := (calls s)(c := Completed)\<rparr>"
        by (simp add: advance_def)
      have f: "cs_Shutdown (advance body c s) = None" "performed (advance body c s) = performed s"
        "globals (advance body c s) = globals s" "calls (advance body c s) = (calls s)(c := Completed)"
        by (simp_all add: a)
      have fin: "performed s = map (Pair d) (fst (run_body body g0)) \<and> globals s = snd (run_body body g0)"
        if h: "((calls s)(c := Completed)) d = Completed \<and>
           (\<forall>d'. d' \<noteq> d \<longrightarrow> ((calls s)(c := Completed)) d' \<noteq> Completed
              \<and> (\<forall>j. ((calls s)(c := Completed)) d' \<noteq> Running j))" for d
      proof -
        have dc: "d = c"
        proof (rule ccontr)
          assume "d \<noteq> c"
          then have "((calls s)(c := Completed)) c \<noteq> Completed" using h by metis
          then show False by simp
        qed
        have "calls s d' \<noteq> Completed" for d'
        proof (cases "d' = c")
          case True with Running show ?thesis by simp
        next
          case False with h dc show ?thesis by (metis fun_upd_other)
        qed
        then have "\<forall>d. calls s d \<noteq> Completed" by blast
        from i1' [OF this Running] e dc show ?thesis by simp
      qed
      show ?thesis unfolding shutdown_inv_def f
      proof (intro conjI allI impI)
        fix d show "(None = Some d) = (\<exists>j. ((calls s)(c := Completed)) d = Running j)"
          using others by auto
      next
        fix d j assume "((calls s)(c := Completed)) d = Running j"
        then show "j \<le> length body" using others by (auto split: if_splits)
      next
        fix d a assume "(d, a) \<in> set (performed s)"
        from p [OF this] show "(\<exists>j. ((calls s)(c := Completed)) d = Running j)
            \<or> ((calls s)(c := Completed)) d = Completed"
          using Running others by (cases "d = c") auto
      next
        assume "\<forall>d. ((calls s)(c := Completed)) d \<noteq> Completed"
        then have False by (metis fun_upd_same)
        then show "performed s = []" by simp
      next
        assume "\<forall>d. ((calls s)(c := Completed)) d \<noteq> Completed"
        then have False by (metis fun_upd_same)
        then show "globals s = g0" by simp
      next
        fix d j
        assume "\<forall>d. ((calls s)(c := Completed)) d \<noteq> Completed"
        then have False by (metis fun_upd_same)
        then show "performed s = map (Pair d) (fst (run_body (take j body) g0))" by simp
      next
        fix d j
        assume "\<forall>d. ((calls s)(c := Completed)) d \<noteq> Completed"
        then have False by (metis fun_upd_same)
        then show "globals s = snd (run_body (take j body) g0)" by simp
      next
        fix d
        assume "((calls s)(c := Completed)) d = Completed \<and>
           (\<forall>d'. d' \<noteq> d \<longrightarrow> ((calls s)(c := Completed)) d' \<noteq> Completed
              \<and> (\<forall>j. ((calls s)(c := Completed)) d' \<noteq> Running j))"
        then show "performed s = map (Pair d) (fst (run_body body g0))" using fin by blast
      next
        fix d
        assume "((calls s)(c := Completed)) d = Completed \<and>
           (\<forall>d'. d' \<noteq> d \<longrightarrow> ((calls s)(c := Completed)) d' \<noteq> Completed
              \<and> (\<forall>j. ((calls s)(c := Completed)) d' \<noteq> Running j))"
        then show "globals s = snd (run_body body g0)" using fin by blast
      qed
    qed
  next
    case Returned_at_once
    then have "advance body c s = s" by (simp add: advance_def)
    with inv show ?thesis by simp
  next
    case Completed
    then have "advance body c s = s" by (simp add: advance_def)
    with inv show ?thesis by simp
  qed
qed


lemma shutdown_inv_fold:
  "shutdown_inv body g0 s \<Longrightarrow> shutdown_inv body g0 (fold (advance body) schedule s)"
  by (induction schedule arbitrary: s) (simp_all add: shutdown_inv_advance)

lemma shutdown_inv_run: "shutdown_inv body g (run_calls body g schedule)"
  unfolding run_calls_def by (rule shutdown_inv_fold [OF shutdown_inv_init])

lemma shutdown_once_general:
  assumes inv: "shutdown_inv body g0 s"
  shows "(\<forall>c. calls s c = Returned_at_once \<longrightarrow> (\<forall>a. (c, a) \<notin> set (performed s)))
   \<and> ((\<forall>c. calls s c \<noteq> Completed) \<longrightarrow>
        (\<exists>c n. performed s = map (Pair c) (take n (fst (run_body body g0)))))
   \<and> (\<forall>c. calls s c = Completed \<and>
          (\<forall>d. d \<noteq> c \<longrightarrow> calls s d = Returned_at_once \<or> calls s d = Not_called
                        \<or> calls s d = Before_try_lock)
        \<longrightarrow> performed s = map (Pair c) (fst (run_body body g0))
            \<and> globals s = snd (run_body body g0))"
proof (intro conjI allI impI)
  fix c a assume r: "calls s c = Returned_at_once"
  show "(c, a) \<notin> set (performed s)"
  proof
    assume "(c, a) \<in> set (performed s)"
    with inv have "(\<exists>i. calls s c = Running i) \<or> calls s c = Completed"
      unfolding shutdown_inv_def by blast
    with r show False by simp
  qed
next
  assume nc: "\<forall>c. calls s c \<noteq> Completed"
  show "\<exists>c n. performed s = map (Pair c) (take n (fst (run_body body g0)))"
  proof (cases "cs_Shutdown s")
    case None
    with inv nc have "performed s = []" unfolding shutdown_inv_def by blast
    then have "performed s = map (Pair 0) (take 0 (fst (run_body body g0)))" by simp
    then show ?thesis by blast
  next
    case (Some c)
    with inv obtain i where r: "calls s c = Running i" unfolding shutdown_inv_def by blast
    with inv nc have "performed s = map (Pair c) (fst (run_body (take i body) g0))"
      unfolding shutdown_inv_def by blast
    moreover obtain n where "fst (run_body (take i body) g0) = take n (fst (run_body body g0))"
      using run_body_take_prefix by blast
    ultimately show ?thesis by auto
  qed
next
  fix c
  assume a: "calls s c = Completed \<and>
          (\<forall>d. d \<noteq> c \<longrightarrow> calls s d = Returned_at_once \<or> calls s d = Not_called
                        \<or> calls s d = Before_try_lock)"
  then have "calls s c = Completed \<and> (\<forall>d. d \<noteq> c \<longrightarrow> calls s d \<noteq> Completed \<and> (\<forall>i. calls s d \<noteq> Running i))"
    by auto
  with inv show "performed s = map (Pair c) (fst (run_body body g0))"
    unfolding shutdown_inv_def by blast
next
  fix c
  assume a: "calls s c = Completed \<and>
          (\<forall>d. d \<noteq> c \<longrightarrow> calls s d = Returned_at_once \<or> calls s d = Not_called
                        \<or> calls s d = Before_try_lock)"
  then have "calls s c = Completed \<and> (\<forall>d. d \<noteq> c \<longrightarrow> calls s d \<noteq> Completed \<and> (\<forall>i. calls s d \<noteq> Running i))"
    by auto
  with inv show "globals s = snd (run_body body g0)"
    unfolding shutdown_inv_def by blast
qed

lemma advance_to_end:
  "calls s c = Running i \<Longrightarrow> i + n = length body \<Longrightarrow>
     fold (advance body) (replicate (Suc n) c) s =
       \<lparr>cs_Shutdown = None, calls = (calls s)(c := Completed),
        globals = snd (run_body (drop i body) (globals s)),
        performed = performed s @ map (Pair c) (fst (run_body (drop i body) (globals s)))\<rparr>"
proof (induction n arbitrary: s i)
  case 0
  have "advance body c s = s\<lparr>cs_Shutdown := None, calls := (calls s)(c := Completed)\<rparr>"
    using 0 by (simp add: advance_def)
  with 0 show ?case by (cases s) (auto simp add: fun_eq_iff)
next
  case (Suc n)
  from Suc.prems have i: "i < length body" by simp
  obtain as g' where st: "(body ! i) (globals s) = (as, g')" by (cases "(body ! i) (globals s)")
  let ?s = "s\<lparr>calls := (calls s)(c := Running (Suc i)), globals := g',
            performed := performed s @ map (Pair c) as\<rparr>"
  have a: "advance body c s = ?s" using Suc.prems(1) i st by (simp add: advance_def)
  have d: "drop i body = body ! i # drop (Suc i) body" using i by (simp add: Cons_nth_drop_Suc)
  have "fold (advance body) (replicate (Suc (Suc n)) c) s = fold (advance body) (replicate (Suc n) c) ?s"
    using a by simp
  also have "\<dots> = \<lparr>cs_Shutdown = None, calls = (calls ?s)(c := Completed),
        globals = snd (run_body (drop (Suc i) body) (globals ?s)),
        performed = performed ?s @ map (Pair c) (fst (run_body (drop (Suc i) body) (globals ?s)))\<rparr>"
    using Suc.prems(2) by (intro Suc.IH) simp_all
  also have "\<dots> = \<lparr>cs_Shutdown = None, calls = (calls s)(c := Completed),
        globals = snd (run_body (drop i body) (globals s)),
        performed = performed s @ map (Pair c) (fst (run_body (drop i body) (globals s)))\<rparr>"
    unfolding d using st by (simp split: prod.splits)
  finally show ?case .
qed

text \<open>
  No action occurs twice in the list of one call: every block of the list lies within
  the block the call carries out when all its guards hold, and those blocks taken
  together have no action twice.
\<close>

lemma concat_within:
  fixes bs' bs :: "'a list list"
  assumes "list_all2 (\<lambda>b' b. distinct b' \<and> set b' \<subseteq> set b) bs' bs"
  shows "set (concat bs') \<subseteq> set (concat bs)"
  using assms by (induction rule: list_all2_induct) auto

lemma distinct_concat_within:
  fixes bs' bs :: "'a list list"
  assumes "list_all2 (\<lambda>b' b. distinct b' \<and> set b' \<subseteq> set b) bs' bs" and "distinct (concat bs)"
  shows "distinct (concat bs')"
  using assms
proof (induction rule: list_all2_induct)
  case Nil
  then show ?case by simp
next
  case (Cons b' bs' b bs)
  from Cons.hyps(2) have "set (concat bs') \<subseteq> set (concat bs)" by (rule concat_within)
  with Cons show ?case by auto
qed

lemma CoreShutdown_actions_distinct: "distinct (CoreShutdown_actions g)"
proof -
  let ?n = "vpwallets g"
  let ?max = "[[AddTransactionsUpdated], [Connman_Stop],
      [StopHTTPServer, StopHTTPRPC, StopRPC, StopREST, StopTorControl, Join_all],
      map (\<lambda>w. Wallet_Flush w False) [0 ..< ?n],
      [MapPort_off, Unregister_peerLogic, Reset_peerLogic, Reset_connman, UnregisterNodeSignals],
      [DumpMempool],
      [FlushUnconfirmed, Write_fee_estimates, Log_fee_estimates_failed],
      [FlushStateToDisk],
      [CloseBlockFiles, Delete_pcoinsTip, Delete_pcoinscatcher, Delete_pcoinsdbview,
        Release_ppow2witTip, Delete_ppow2witcatcher, Delete_ppow2witdbview, Delete_pblocktree],
      map (\<lambda>w. Wallet_Flush w True) [0 ..< ?n],
      [Close_zmq], [Remove_pid_file], [UnregisterAllValidationInterfaces],
      map Delete_wallet [0 ..< ?n],
      [Reset_globalVerifyHandle, ECC_Stop],
      [Remove ''autocheckpoints'', Remove ''banlist.dat'', Remove ''peers.dat''],
      [Remove ''mempool.dat'', Remove ''fee_estimates.dat'', Remove ''blocks'',
       Remove ''chainstate'', Remove ''witstate'', Remove ''database'', Remove ''db.log'']]"
  let ?act = "[[AddTransactionsUpdated],
      (if g_connman g then [Connman_Stop] else []),
      [StopHTTPServer, StopHTTPRPC, StopRPC, StopREST, StopTorControl, Join_all],
      (if ENABLE_WALLET g then map (\<lambda>w. Wallet_Flush w False) [0 ..< ?n] else []),
      [MapPort_off, Unregister_peerLogic, Reset_peerLogic, Reset_connman, UnregisterNodeSignals],
      (if dump_later g \<and> persistmempool_arg g then [DumpMempool] else []),
      (if fFeeEstimatesInitialized g
        then [FlushUnconfirmed, if est_fileout_ok g then Write_fee_estimates else Log_fee_estimates_failed]
        else []),
      (if pcoinsTip g then [FlushStateToDisk] else []),
      [CloseBlockFiles, Delete_pcoinsTip, Delete_pcoinscatcher, Delete_pcoinsdbview,
        Release_ppow2witTip, Delete_ppow2witcatcher, Delete_ppow2witdbview, Delete_pblocktree],
      (if ENABLE_WALLET g then map (\<lambda>w. Wallet_Flush w True) [0 ..< ?n] else []),
      (if pzmqNotificationInterface g then [Close_zmq] else []),
      (if WIN32 g then [] else [Remove_pid_file]),
      [UnregisterAllValidationInterfaces],
      (if ENABLE_WALLET g then map Delete_wallet [0 ..< ?n] else []),
      [Reset_globalVerifyHandle, ECC_Stop],
      (if fullyEraseDatadirOnShutdown g \<or> partiallyEraseDatadirOnShutdown g
        then [Remove ''autocheckpoints'', Remove ''banlist.dat'', Remove ''peers.dat''] else []),
      (if fullyEraseDatadirOnShutdown g
        then [Remove ''mempool.dat'', Remove ''fee_estimates.dat'', Remove ''blocks'',
              Remove ''chainstate'', Remove ''witstate'', Remove ''database'', Remove ''db.log'']
        else [])]"
  have c: "CoreShutdown_actions g = concat ?act"
    unfolding CoreShutdown_actions_def by (simp split del: if_split)
  have m: "distinct (concat ?max)"
    by (auto simp add: distinct_map inj_on_def)
  have w: "list_all2 (\<lambda>b' b. distinct b' \<and> set b' \<subseteq> set b) ?act ?max"
    by (intro list.rel_intros conjI) (auto simp add: distinct_map inj_on_def)
  show ?thesis unfolding c using w m by (rule distinct_concat_within)
qed

text \<open>
  C7 (as the code has it). A call whose lock attempt comes while another call holds
  \<^verbatim>\<open>cs_Shutdown\<close> returns at once, carries out no action and changes no global. Under
  every schedule: a call that returned at once has carried out nothing; as long as no
  call has completed, the actions carried out are an initial part of the list, each at
  most once and all by one call; and when one call has completed and every other call
  either returned at once, is still before its lock attempt or was never made, every
  action has been carried out exactly once, in order, and the globals are those one
  complete call leaves. The list of one call has no action twice.
\<close>

theorem CoreShutdown_overlapping_calls:
  "(\<forall>s owner d. cs_Shutdown s = Some owner \<and> calls s d = Before_try_lock \<longrightarrow>
       calls (advance CoreShutdown_body d s) d = Returned_at_once \<and>
       performed (advance CoreShutdown_body d s) = performed s \<and>
       globals (advance CoreShutdown_body d s) = globals s)
   \<and> (\<forall>c. calls (run_calls CoreShutdown_body g schedule) c = Returned_at_once \<longrightarrow>
         (\<forall>a. (c, a) \<notin> set (performed (run_calls CoreShutdown_body g schedule))))
   \<and> ((\<forall>c. calls (run_calls CoreShutdown_body g schedule) c \<noteq> Completed) \<longrightarrow>
        (\<exists>c n. performed (run_calls CoreShutdown_body g schedule)
                 = map (Pair c) (take n (CoreShutdown_actions g))))
   \<and> (\<forall>c. calls (run_calls CoreShutdown_body g schedule) c = Completed \<and>
          (\<forall>d. d \<noteq> c \<longrightarrow> calls (run_calls CoreShutdown_body g schedule) d = Returned_at_once
                        \<or> calls (run_calls CoreShutdown_body g schedule) d = Not_called
                        \<or> calls (run_calls CoreShutdown_body g schedule) d = Before_try_lock)
        \<longrightarrow> performed (run_calls CoreShutdown_body g schedule) = map (Pair c) (CoreShutdown_actions g)
            \<and> globals (run_calls CoreShutdown_body g schedule) = globals_after_CoreShutdown g)
   \<and> distinct (CoreShutdown_actions g)"
proof -
  have first: "\<forall>s owner d. cs_Shutdown s = Some owner \<and> calls s d = Before_try_lock \<longrightarrow>
       calls (advance CoreShutdown_body d s) d = Returned_at_once \<and>
       performed (advance CoreShutdown_body d s) = performed s \<and>
       globals (advance CoreShutdown_body d s) = globals s"
    by (simp add: advance_def)
  from first shutdown_once_general [OF shutdown_inv_run, of CoreShutdown_body g schedule]
    CoreShutdown_actions_distinct [of g]
  show ?thesis unfolding CoreShutdown_body_run fst_conv snd_conv by blast
qed

theorem CoreShutdown_overlapping_calls_witness:
  "calls (run_calls CoreShutdown_body shutdown_example_globals
      ([0, 0, 1, 1] @ replicate (Suc (length CoreShutdown_body)) 0)) 1
     = Returned_at_once
   \<and> performed (run_calls CoreShutdown_body shutdown_example_globals
      ([0, 0, 1, 1] @ replicate (Suc (length CoreShutdown_body)) 0))
     = map (Pair 0) (CoreShutdown_actions shutdown_example_globals)"
proof -
  let ?B = CoreShutdown_body
  let ?g = shutdown_example_globals
  let ?sched = "[0, 0, 1, 1] @ replicate (Suc (length ?B)) 0"
  let ?s4 = "\<lparr>cs_Shutdown = Some 0,
      calls = (\<lambda>c. Not_called)(0 := Running 0, 1 := Returned_at_once), globals = ?g, performed = []\<rparr>"
  have s4: "fold (advance ?B) [0, 0, 1, 1] (shutdown_init ?g) = ?s4"
    by (simp add: advance_def shutdown_init_def fun_upd_twist)
  have e: "fold (advance ?B) (replicate (Suc (length ?B)) 0) ?s4 =
       \<lparr>cs_Shutdown = None, calls = (calls ?s4)(0 := Completed),
        globals = snd (run_body (drop 0 ?B) (globals ?s4)),
        performed = performed ?s4 @ map (Pair 0) (fst (run_body (drop 0 ?B) (globals ?s4)))\<rparr>"
    by (rule advance_to_end) simp_all
  have r: "run_calls ?B ?g ?sched =
       \<lparr>cs_Shutdown = None, calls = (calls ?s4)(0 := Completed),
        globals = snd (run_body (drop 0 ?B) (globals ?s4)),
        performed = performed ?s4 @ map (Pair 0) (fst (run_body (drop 0 ?B) (globals ?s4)))\<rparr>"
    unfolding run_calls_def fold_append comp_def s4 by (rule e)
  have c0: "calls (run_calls ?B ?g ?sched) 0 = Completed"
    unfolding r by simp
  have c1: "calls (run_calls ?B ?g ?sched) 1 = Returned_at_once"
    unfolding r by simp
  have cd: "\<forall>d. d \<noteq> 0 \<longrightarrow> calls (run_calls ?B ?g ?sched) d = Returned_at_once
       \<or> calls (run_calls ?B ?g ?sched) d = Not_called
       \<or> calls (run_calls ?B ?g ?sched) d = Before_try_lock"
    unfolding r by simp
  from CoreShutdown_overlapping_calls [of ?g ?sched] c0 cd
  have "performed (run_calls ?B ?g ?sched) = map (Pair 0) (CoreShutdown_actions ?g)"
    by blast
  with c1 show ?thesis by blast
qed

text \<open>
  C7 as stated speaks of a call made while another is in progress. The lock is tried
  after the function is entered and is free again once the first call has returned: a
  second call that is entered while the first is running, and gets to its lock attempt
  only after the first has returned, takes the lock and runs the body again. It finds
  the globals as the first call left them, so of the 31 actions of the first call it
  repeats 24, \<^verbatim>\<open>ECC_Stop\<close> among them.
\<close>

theorem CoreShutdown_late_lock_attempt_counterexample:
  "calls (run_calls CoreShutdown_body shutdown_example_globals [0, 0, 1]) 0 = Running 0
   \<and> calls (run_calls CoreShutdown_body shutdown_example_globals [0, 0, 1]) 1 = Before_try_lock
   \<and> performed (run_calls CoreShutdown_body shutdown_example_globals
        ([0, 0, 1] @ replicate (Suc (length CoreShutdown_body)) 0
          @ [1] @ replicate (Suc (length CoreShutdown_body)) 1))
     = map (Pair 0) (CoreShutdown_actions shutdown_example_globals)
       @ map (Pair 1) (CoreShutdown_actions (globals_after_CoreShutdown shutdown_example_globals))
   \<and> length (CoreShutdown_actions shutdown_example_globals) = 31
   \<and> length (CoreShutdown_actions (globals_after_CoreShutdown shutdown_example_globals)) = 24
   \<and> ECC_Stop \<in> set (CoreShutdown_actions shutdown_example_globals)
   \<and> ECC_Stop \<in> set (CoreShutdown_actions (globals_after_CoreShutdown shutdown_example_globals))"
proof -
  let ?B = CoreShutdown_body
  let ?g = shutdown_example_globals
  let ?n = "Suc (length ?B)"
  let ?s3 = "\<lparr>cs_Shutdown = Some 0,
      calls = (\<lambda>c. Not_called)(0 := Running 0, 1 := Before_try_lock), globals = ?g, performed = []\<rparr>"
  let ?s4 = "\<lparr>cs_Shutdown = None, calls = (calls ?s3)(0 := Completed),
        globals = snd (run_body (drop 0 ?B) (globals ?s3)),
        performed = performed ?s3 @ map (Pair 0) (fst (run_body (drop 0 ?B) (globals ?s3)))\<rparr>"
  let ?s5 = "\<lparr>cs_Shutdown = Some 1, calls = (calls ?s4)(1 := Running 0),
        globals = globals_after_CoreShutdown ?g,
        performed = map (Pair 0) (CoreShutdown_actions ?g)\<rparr>"
  have s3: "fold (advance ?B) [0, 0, 1] (shutdown_init ?g) = ?s3"
    by (simp add: advance_def shutdown_init_def fun_upd_twist)
  have s4: "fold (advance ?B) (replicate ?n 0) ?s3 = ?s4"
    by (rule advance_to_end) simp_all
  have s5: "advance ?B 1 ?s4 = ?s5"
    by (simp add: advance_def CoreShutdown_body_run)
  have s6: "fold (advance ?B) (replicate ?n 1) ?s5 =
      \<lparr>cs_Shutdown = None, calls = (calls ?s5)(1 := Completed),
        globals = snd (run_body (drop 0 ?B) (globals ?s5)),
        performed = performed ?s5 @ map (Pair 1) (fst (run_body (drop 0 ?B) (globals ?s5)))\<rparr>"
    by (rule advance_to_end) simp_all
  have a: "calls (run_calls ?B ?g [0, 0, 1]) 0 = Running 0"
    and b: "calls (run_calls ?B ?g [0, 0, 1]) 1 = Before_try_lock"
    unfolding run_calls_def s3 by simp_all
  have "run_calls ?B ?g ([0, 0, 1] @ replicate ?n 0 @ [1] @ replicate ?n 1) =
      fold (advance ?B) (replicate ?n 1) (advance ?B 1
        (fold (advance ?B) (replicate ?n 0) (fold (advance ?B) [0, 0, 1] (shutdown_init ?g))))"
    unfolding run_calls_def by (simp only: fold_append comp_def fold_simps)
  also have "\<dots> = fold (advance ?B) (replicate ?n 1) (advance ?B 1 (fold (advance ?B) (replicate ?n 0) ?s3))"
    by (simp only: s3)
  also have "\<dots> = fold (advance ?B) (replicate ?n 1) (advance ?B 1 ?s4)"
    by (simp only: s4)
  also have "\<dots> = fold (advance ?B) (replicate ?n 1) ?s5"
    by (simp only: s5)
  also note s6
  finally have "run_calls ?B ?g ([0, 0, 1] @ replicate ?n 0 @ [1] @ replicate ?n 1) =
      \<lparr>cs_Shutdown = None, calls = (calls ?s5)(1 := Completed),
        globals = snd (run_body (drop 0 ?B) (globals ?s5)),
        performed = performed ?s5 @ map (Pair 1) (fst (run_body (drop 0 ?B) (globals ?s5)))\<rparr>" .
  then have c: "performed (run_calls ?B ?g ([0, 0, 1] @ replicate ?n 0 @ [1] @ replicate ?n 1))
      = map (Pair 0) (CoreShutdown_actions ?g)
        @ map (Pair 1) (CoreShutdown_actions (globals_after_CoreShutdown ?g))"
    by (simp add: CoreShutdown_body_run)
  have d: "length (CoreShutdown_actions ?g) = 31"
    "length (CoreShutdown_actions (globals_after_CoreShutdown ?g)) = 24"
    "ECC_Stop \<in> set (CoreShutdown_actions ?g)"
    "ECC_Stop \<in> set (CoreShutdown_actions (globals_after_CoreShutdown ?g))"
    by (simp_all add: CoreShutdown_actions_def globals_after_CoreShutdown_def shutdown_example_globals_def)
  from a b c d show ?thesis by blast
qed

subsection \<open>AppInitMain: loading the block index\<close>

text \<open>
  What a pass leaves alone: the counters and the record; \<^verbatim>\<open>fReindex\<close> is only ever set,
  \<^verbatim>\<open>upgradeOnceOnly\<close> only ever cleared, and a pass that starts over has cleared it.
\<close>

lemma erase_block_index_fields:
  assumes "erase_block_index a b c e s = (r, s')"
  shows "upgradeOnceOnly s' = upgradeOnceOnly s \<and> pointers s' = pointers s \<and> passes s' = passes s
    \<and> questions s' = questions s \<and> load_log s' = load_log s \<and> (load_fReindex s \<longrightarrow> load_fReindex s')"
  using assms unfolding erase_block_index_def by (auto split: if_splits)

lemma upgrade_block_index_fields:
  assumes "upgrade_block_index cfg e s = (r, s')"
  shows "\<not> upgradeOnceOnly s' \<and> pointers s' = pointers s \<and> passes s' = passes s
    \<and> questions s' = questions s \<and> load_log s' = load_log s \<and> (load_fReindex s \<longrightarrow> load_fReindex s')"
  using assms unfolding upgrade_block_index_def Let_def
  by (auto split: if_splits dest!: erase_block_index_fields)

lemma verify_loaded_fields:
  assumes "verify_loaded cfg e s = (r, s')"
  shows "s' = s \<and> r \<noteq> Goto_loadblockindex"
  using assms unfolding verify_loaded_def by (auto split: if_splits)

lemma databases_opened_fields:
  assumes "databases_opened cfg e s = (r, s')"
  shows "pointers s' = pointers s \<and> passes s' = passes s
    \<and> questions s' = questions s \<and> load_log s' = load_log s \<and> (load_fReindex s \<longrightarrow> load_fReindex s')
    \<and> (upgradeOnceOnly s' \<longrightarrow> upgradeOnceOnly s)
    \<and> (r = Goto_loadblockindex \<longrightarrow> upgradeOnceOnly s \<and> \<not> upgradeOnceOnly s')"
  using assms unfolding databases_opened_def
  by (auto split: if_splits dest!: erase_block_index_fields upgrade_block_index_fields verify_loaded_fields)

lemma load_pass_fields:
  assumes "load_pass cfg e s = (r, s')"
  shows "passes s' = passes s \<and> questions s' = questions s \<and> load_log s' = load_log s
    \<and> (load_fReindex s \<longrightarrow> load_fReindex s')
    \<and> (upgradeOnceOnly s' \<longrightarrow> upgradeOnceOnly s)
    \<and> (r = Goto_loadblockindex \<longrightarrow> upgradeOnceOnly s \<and> \<not> upgradeOnceOnly s')"
  using assms unfolding load_pass_def
  by (auto split: prod.splits open_outcome.splits dest!: databases_opened_fields)

lemma load_passes_fields:
  assumes "load_passes cfg env s = (r, s')"
  shows "questions s' = questions s \<and> load_log s' = load_log s \<and> (load_fReindex s \<longrightarrow> load_fReindex s')"
  using assms
proof (induction cfg env s arbitrary: r s' rule: load_passes.induct)
  case (1 cfg env s)
  obtain o1 s1 where p: "load_pass cfg (env (passes s)) s = (o1, s1)"
    by (cases "load_pass cfg (env (passes s)) s")
  note k = load_pass_fields [OF p]
  show ?case
  proof (cases "o1 = Goto_loadblockindex")
    case True
    with p have g: "load_pass cfg (env (passes s)) s = (Goto_loadblockindex, s1)" by simp
    from "1.prems" g have "load_passes cfg env (s1\<lparr>passes := Suc (passes s1)\<rparr>) = (r, s')"
      by (subst (asm) load_passes.simps) simp
    with "1.IH" [OF g [symmetric] refl] have "questions s' = questions (s1\<lparr>passes := Suc (passes s1)\<rparr>)
        \<and> load_log s' = load_log (s1\<lparr>passes := Suc (passes s1)\<rparr>)
        \<and> (load_fReindex (s1\<lparr>passes := Suc (passes s1)\<rparr>) \<longrightarrow> load_fReindex s')"
      by blast
    with k show ?thesis by simp
  next
    case False
    with "1.prems" p k show ?thesis
      by (subst (asm) load_passes.simps) (auto split: pass_outcome.splits)
  qed
qed

lemma load_attempt_fields:
  assumes "load_attempt cfg env s = (r, s')"
  shows "questions s' = questions s \<and> load_log s' = load_log s \<and> (load_fReindex s \<longrightarrow> load_fReindex s')"
  using assms load_passes_fields [of cfg env s r s']
  unfolding load_attempt_def by (auto split: if_splits)

text \<open>
  The loop, one case at a time: an attempt that began with reindex on is the last; so
  is one that did not fail with a load error; after a load error in an attempt that
  began without reindex the user is asked, and the answer decides between giving up
  and one more attempt, which begins with reindex on.
\<close>

lemma load_loop_reindexing:
  assumes "load_fReindex s" and a: "load_attempt cfg env s = (r, s1)"
  shows "load_loop cfg env q s = (fatal_result r, s1\<lparr>load_log := load_log s @ [Attempt True r]\<rparr>)"
  using assms load_attempt_fields [OF a]
  by (subst load_loop.simps) (simp split: attempt_outcome.split)

lemma load_loop_single:
  assumes a: "load_attempt cfg env s = (r, s1)"
    and h: "load_fReindex s \<or> (\<forall>m. r \<noteq> Attempt_failed m)"
  shows "load_loop cfg env q s
    = (fatal_result r, s1\<lparr>load_log := load_log s @ [Attempt (load_fReindex s) r]\<rparr>)"
  using a h load_attempt_fields [OF a]
  by (subst load_loop.simps) (auto split: attempt_outcome.split)

lemma load_loop_declined:
  assumes a: "load_attempt cfg env s = (Attempt_failed m, s1)"
    and nf: "\<not> load_fReindex s" and d: "q (questions s) \<noteq> Some True"
  shows "load_loop cfg env q s
    = (Aborted_by_user, s1\<lparr>questions := Suc (questions s),
         load_log := load_log s @ [Attempt False (Attempt_failed m), Question m (q (questions s))]\<rparr>)"
  using a nf d load_attempt_fields [OF a]
  by (subst load_loop.simps) (simp add: ask_def)

lemma load_loop_approved:
  assumes a: "load_attempt cfg env s = (Attempt_failed m, s1)"
    and nf: "\<not> load_fReindex s" and y: "q (questions s) = Some True"
    and a2: "load_attempt cfg env (s1\<lparr>load_fReindex := True, questions := Suc (questions s),
         load_log := load_log s @ [Attempt False (Attempt_failed m), Question m (Some True)]\<rparr>)
       = (r2, s2)"
  shows "load_loop cfg env q s
    = (fatal_result r2, s2\<lparr>load_log := load_log s
         @ [Attempt False (Attempt_failed m), Question m (Some True), Attempt True r2]\<rparr>)"
proof -
  let ?t = "s1\<lparr>load_fReindex := True, questions := Suc (questions s),
         load_log := load_log s @ [Attempt False (Attempt_failed m), Question m (Some True)]\<rparr>"
  have e: "s1\<lparr>questions := Suc (questions s),
         load_log := load_log s @ [Attempt False (Attempt_failed m), Question m (Some True)],
         load_fReindex := True\<rparr> = ?t"
    by (cases s1) simp
  have "load_loop cfg env q s = load_loop cfg env q ?t"
    using a nf y load_attempt_fields [OF a]
    by (subst load_loop.simps) (simp add: ask_def e)
  also have "\<dots> = (fatal_result r2, s2\<lparr>load_log := load_log ?t @ [Attempt True r2]\<rparr>)"
    using a2 by (intro load_loop_reindexing) simp_all
  finally show ?thesis by simp
qed

text \<open>
  A pass in which nothing throws and which finds no pointer dangling leaves all six
  pointers live.
\<close>

lemma pointers_eq_iff:
  fixes f g :: "global_pointer \<Rightarrow> 'a"
  shows "f = g \<longleftrightarrow>
    f Ptr_pcoinsTip = g Ptr_pcoinsTip \<and> f Ptr_pcoinsdbview = g Ptr_pcoinsdbview \<and>
    f Ptr_pcoinscatcher = g Ptr_pcoinscatcher \<and> f Ptr_pblocktree = g Ptr_pblocktree \<and>
    f Ptr_ppow2witdbview = g Ptr_ppow2witdbview \<and> f Ptr_ppow2witcatcher = g Ptr_ppow2witcatcher"
proof
  assume "f = g" then show "f Ptr_pcoinsTip = g Ptr_pcoinsTip \<and> f Ptr_pcoinsdbview = g Ptr_pcoinsdbview \<and>
    f Ptr_pcoinscatcher = g Ptr_pcoinscatcher \<and> f Ptr_pblocktree = g Ptr_pblocktree \<and>
    f Ptr_ppow2witdbview = g Ptr_ppow2witdbview \<and> f Ptr_ppow2witcatcher = g Ptr_ppow2witcatcher"
    by simp
next
  assume a: "f Ptr_pcoinsTip = g Ptr_pcoinsTip \<and> f Ptr_pcoinsdbview = g Ptr_pcoinsdbview \<and>
    f Ptr_pcoinscatcher = g Ptr_pcoinscatcher \<and> f Ptr_pblocktree = g Ptr_pblocktree \<and>
    f Ptr_ppow2witdbview = g Ptr_ppow2witdbview \<and> f Ptr_ppow2witcatcher = g Ptr_ppow2witcatcher"
  show "f = g"
  proof (rule ext)
    fix p show "f p = g p" using a by (cases p) simp_all
  qed
qed

lemma run_open_no_throw:
  assumes "\<And>line. \<not> thr line" and "\<And>p. h p \<noteq> Dangling"
  shows "run_open open_steps thr h = (Opened, \<lambda>p. Live)"
proof -
  have d: "h p = Null \<or> h p = Live" for p using assms(2) [of p] by (cases "h p") simp_all
  show ?thesis
    using d [of Ptr_pcoinsTip] d [of Ptr_pcoinsdbview] d [of Ptr_pcoinscatcher] d [of Ptr_pblocktree]
      d [of Ptr_ppow2witdbview] d [of Ptr_ppow2witcatcher] assms(1)
    unfolding open_steps_def
    by (elim disjE) (simp_all add: pointers_eq_iff)
qed

lemma load_pass_no_throw:
  assumes "\<And>line. \<not> throws e line" and "\<And>p. pointers s p \<noteq> Dangling"
  shows "load_pass cfg e s = databases_opened cfg e (s\<lparr>pointers := (\<lambda>p. Live)\<rparr>)"
  unfolding load_pass_def using run_open_no_throw [of "throws e" "pointers s", OF assms] by simp

text \<open>A pass that finds the transaction-index flags different does not load.\<close>

lemma load_pass_txindex_mismatch:
  assumes "fTxIndex e \<noteq> txindex_arg cfg"
  shows "fst (load_pass cfg e s) \<noteq> Pass_loaded"
proof -
  have v: "fst (verify_loaded cfg e t) \<noteq> Pass_loaded" for t
    using assms unfolding verify_loaded_def by simp
  have er: "fst (erase_block_index a b c e t) \<noteq> Pass_loaded" for a b c t
    unfolding erase_block_index_def by simp
  have u: "fst (upgrade_block_index cfg e t) \<noteq> Pass_loaded" for t
    unfolding upgrade_block_index_def Let_def using er by simp
  have d: "fst (databases_opened cfg e t) \<noteq> Pass_loaded" for t
    unfolding databases_opened_def using v er u by simp
  show ?thesis unfolding load_pass_def using d
    by (simp split: prod.split open_outcome.split)
qed

lemma load_pass_txindex_error:
  assumes "fTxIndex e \<noteq> txindex_arg cfg"
    and "\<And>line. \<not> throws e line" and "\<And>p. pointers s p \<noteq> Dangling"
    and "load_fReindex s \<or> Upgrade_ok e" and "\<not> (upgradeOnceOnly s \<and> nPreviousVersion e < 1)"
    and "LoadBlockIndex_ok e" and "genesis_ok e" and "InitBlockIndex_ok e"
  shows "load_pass cfg e s = (Pass_failed txindex_error, s\<lparr>pointers := (\<lambda>p. Live)\<rparr>)"
  unfolding load_pass_no_throw [of e s cfg, OF assms(2,3)]
  using assms unfolding databases_opened_def verify_loaded_def by auto

lemma load_passes_never_loaded:
  "(\<And>n t. fst (load_pass cfg (env n) t) \<noteq> Pass_loaded) \<Longrightarrow>
     fst (load_passes cfg env s) \<noteq> Attempt_loaded"
proof (induction cfg env s rule: load_passes.induct)
  case (1 cfg env s)
  obtain o1 s1 where p: "load_pass cfg (env (passes s)) s = (o1, s1)"
    by (cases "load_pass cfg (env (passes s)) s")
  from "1.prems" [of "passes s" s] p have nl: "o1 \<noteq> Pass_loaded" by simp
  show ?case
  proof (cases "o1 = Goto_loadblockindex")
    case True
    with p have g: "(Goto_loadblockindex, s1) = load_pass cfg (env (passes s)) s" by simp
    have "fst (load_passes cfg env (s1\<lparr>passes := Suc (passes s1)\<rparr>)) \<noteq> Attempt_loaded"
      using g refl "1.prems" by (rule "1.IH")
    moreover have "load_passes cfg env s = load_passes cfg env (s1\<lparr>passes := Suc (passes s1)\<rparr>)"
      using g by (subst load_passes.simps) (simp add: g [symmetric])
    ultimately show ?thesis by simp
  next
    case False
    with p nl show ?thesis
      by (subst load_passes.simps) (simp split: pass_outcome.split)
  qed
qed

lemma load_attempt_never_loaded:
  "(\<And>n t. fst (load_pass cfg (env n) t) \<noteq> Pass_loaded) \<Longrightarrow>
     fst (load_attempt cfg env s) \<noteq> Attempt_loaded"
  unfolding load_attempt_def using load_passes_never_loaded [of cfg env s] by simp

lemma fatal_result_Loaded: "fatal_result r = Loaded \<longleftrightarrow> r = Attempt_loaded"
  by (cases r) simp_all

lemma load_loop_never_loaded:
  assumes nl: "\<And>n t. fst (load_pass cfg (env n) t) \<noteq> Pass_loaded"
  shows "fst (load_loop cfg env q s) \<noteq> Loaded"
proof -
  obtain r s1 where a: "load_attempt cfg env s = (r, s1)" by (cases "load_attempt cfg env s")
  have na: "\<And>t. fst (load_attempt cfg env t) \<noteq> Attempt_loaded"
    using nl by (rule load_attempt_never_loaded)
  from na [of s] a have r: "r \<noteq> Attempt_loaded" by simp
  show ?thesis
  proof (cases "load_fReindex s \<or> (\<forall>m. r \<noteq> Attempt_failed m)")
    case True
    from load_loop_single [OF a True, of q] r show ?thesis by (simp add: fatal_result_Loaded)
  next
    case False
    then obtain m where m: "r = Attempt_failed m" and nf: "\<not> load_fReindex s" by blast
    show ?thesis
    proof (cases "q (questions s) = Some True")
      case False
      from load_loop_declined [of cfg env s m s1 q] a m nf False show ?thesis by simp
    next
      case True
      obtain r2 s2 where a2: "load_attempt cfg env (s1\<lparr>load_fReindex := True, questions := Suc (questions s),
         load_log := load_log s @ [Attempt False (Attempt_failed m), Question m (Some True)]\<rparr>) = (r2, s2)"
        by (cases "load_attempt cfg env (s1\<lparr>load_fReindex := True, questions := Suc (questions s),
         load_log := load_log s @ [Attempt False (Attempt_failed m), Question m (Some True)]\<rparr>)")
      from na [of "s1\<lparr>load_fReindex := True, questions := Suc (questions s),
         load_log := load_log s @ [Attempt False (Attempt_failed m), Question m (Some True)]\<rparr>"] a2
      have "r2 \<noteq> Attempt_loaded" by simp
      with load_loop_approved [of cfg env s m s1 q r2 s2] a m nf True a2 show ?thesis
        by (simp add: fatal_result_Loaded)
    qed
  qed
qed


text \<open>Attempts of a single pass in which nothing throws.\<close>

lemma load_attempt_single_pass:
  assumes "\<And>line. \<not> throws (env (passes s)) line" and "\<And>p. pointers s p \<noteq> Dangling"
    and "databases_opened cfg (env (passes s)) (s\<lparr>pointers := (\<lambda>p. Live)\<rparr>) = (Pass_failed msg, s')"
  shows "load_attempt cfg env s = (Attempt_failed msg, s'\<lparr>passes := Suc (passes s')\<rparr>)"
  using assms(1) [of 1657] load_pass_no_throw [of "env (passes s)" s cfg, OF assms(1,2)] assms(3)
  unfolding load_attempt_def
  by (subst load_passes.simps) simp

lemma load_attempt_single_pass_loaded:
  assumes "\<And>line. \<not> throws (env (passes s)) line" and "\<And>p. pointers s p \<noteq> Dangling"
    and "databases_opened cfg (env (passes s)) (s\<lparr>pointers := (\<lambda>p. Live)\<rparr>) = (Pass_loaded, s')"
  shows "load_attempt cfg env s = (Attempt_loaded, s'\<lparr>passes := Suc (passes s')\<rparr>)"
  using assms(1) [of 1657] load_pass_no_throw [of "env (passes s)" s cfg, OF assms(1,2)] assms(3)
  unfolding load_attempt_def
  by (subst load_passes.simps) simp



text \<open>
  C8 (as the code has it). When \<^verbatim>\<open>fTxIndex\<close> differs from the configured \<^verbatim>\<open>-txindex\<close>, the
  pass does not load: if it gets as far as the test (nothing thrown, no pointer
  dangling, the chain-state upgrade, the index load, the genesis test and the index
  initialisation passed, no index upgrade pending) it ends with the load error that
  asks for \<^verbatim>\<open>-reindex-chainstate\<close>; and a run in which every pass finds the flags
  different never ends loaded. The error is a load error like the others. When the
  attempt that ends with it began as a reindex attempt, the loop returns \<^verbatim>\<open>InitError\<close>
  with it. When it did not, the user is asked whether to rebuild: if the answer is not
  yes, loading is aborted; if it is yes, one more attempt is made, beginning with
  \<^verbatim>\<open>fReindex\<close> set in the state the first attempt left, and the loop returns with the
  outcome of that attempt.
\<close>

theorem txindex_mismatch_rejected:
  "(fTxIndex e \<noteq> txindex_arg cfg \<longrightarrow>
      fst (load_pass cfg e s) \<noteq> Pass_loaded \<and>
      ((\<forall>line. \<not> throws e line) \<and> (\<forall>p. pointers s p \<noteq> Dangling)
         \<and> (load_fReindex s \<or> Upgrade_ok e)
         \<and> \<not> (upgradeOnceOnly s \<and> nPreviousVersion e < 1)
         \<and> LoadBlockIndex_ok e \<and> genesis_ok e \<and> InitBlockIndex_ok e
       \<longrightarrow> load_pass cfg e s = (Pass_failed txindex_error, s\<lparr>pointers := (\<lambda>p. Live)\<rparr>)))
   \<and> ((\<forall>n. fTxIndex (env n) \<noteq> txindex_arg cfg) \<longrightarrow>
        fst (load_block_index cfg env q f0) \<noteq> Loaded)
   \<and> (load_attempt cfg env (load_start f0) = (Attempt_failed txindex_error, s1) \<longrightarrow>
        (f0 \<longrightarrow>
           load_block_index cfg env q f0
             = (Init_error txindex_error,
                s1\<lparr>load_log := [Attempt True (Attempt_failed txindex_error)]\<rparr>))
      \<and> (\<not> f0 \<and> q 0 \<noteq> Some True \<longrightarrow>
           load_block_index cfg env q f0
             = (Aborted_by_user,
                s1\<lparr>questions := 1,
                   load_log := [Attempt False (Attempt_failed txindex_error),
                                Question txindex_error (q 0)]\<rparr>))
      \<and> (\<not> f0 \<and> q 0 = Some True \<longrightarrow>
           (\<forall>r2 s2. load_attempt cfg env
                (s1\<lparr>load_fReindex := True, questions := 1,
                    load_log := [Attempt False (Attempt_failed txindex_error),
                                 Question txindex_error (Some True)]\<rparr>) = (r2, s2) \<longrightarrow>
              load_block_index cfg env q f0
                = (fatal_result r2,
                   s2\<lparr>load_log := [Attempt False (Attempt_failed txindex_error),
                                    Question txindex_error (Some True), Attempt True r2]\<rparr>))))"
proof -
  have one: "fTxIndex e \<noteq> txindex_arg cfg \<longrightarrow>
      fst (load_pass cfg e s) \<noteq> Pass_loaded \<and>
      ((\<forall>line. \<not> throws e line) \<and> (\<forall>p. pointers s p \<noteq> Dangling)
         \<and> (load_fReindex s \<or> Upgrade_ok e)
         \<and> \<not> (upgradeOnceOnly s \<and> nPreviousVersion e < 1)
         \<and> LoadBlockIndex_ok e \<and> genesis_ok e \<and> InitBlockIndex_ok e
       \<longrightarrow> load_pass cfg e s = (Pass_failed txindex_error, s\<lparr>pointers := (\<lambda>p. Live)\<rparr>))"
    using load_pass_txindex_mismatch [of e cfg s] load_pass_txindex_error [of e cfg s] by blast
  have two: "(\<forall>n. fTxIndex (env n) \<noteq> txindex_arg cfg) \<longrightarrow>
        fst (load_block_index cfg env q f0) \<noteq> Loaded"
    unfolding load_block_index_def
    by (intro impI load_loop_never_loaded load_pass_txindex_mismatch) simp
  have s0: "questions (load_start f0) = 0" "load_log (load_start f0) = []"
    "load_fReindex (load_start f0) = f0"
    by (simp_all add: load_start_def)
  have three: "(f0 \<longrightarrow>
           load_block_index cfg env q f0
             = (Init_error txindex_error,
                s1\<lparr>load_log := [Attempt True (Attempt_failed txindex_error)]\<rparr>))
      \<and> (\<not> f0 \<and> q 0 \<noteq> Some True \<longrightarrow>
           load_block_index cfg env q f0
             = (Aborted_by_user,
                s1\<lparr>questions := 1,
                   load_log := [Attempt False (Attempt_failed txindex_error),
                                Question txindex_error (q 0)]\<rparr>))
      \<and> (\<not> f0 \<and> q 0 = Some True \<longrightarrow>
           (\<forall>r2 s2. load_attempt cfg env
                (s1\<lparr>load_fReindex := True, questions := 1,
                    load_log := [Attempt False (Attempt_failed txindex_error),
                                 Question txindex_error (Some True)]\<rparr>) = (r2, s2) \<longrightarrow>
              load_block_index cfg env q f0
                = (fatal_result r2,
                   s2\<lparr>load_log := [Attempt False (Attempt_failed txindex_error),
                                    Question txindex_error (Some True), Attempt True r2]\<rparr>)))"
    if a: "load_attempt cfg env (load_start f0) = (Attempt_failed txindex_error, s1)"
  proof (intro conjI impI allI)
    assume f0
    with load_loop_single [of cfg env "load_start f0" "Attempt_failed txindex_error" s1 q] a s0
    show "load_block_index cfg env q f0
             = (Init_error txindex_error,
                s1\<lparr>load_log := [Attempt True (Attempt_failed txindex_error)]\<rparr>)"
      by (simp add: load_block_index_def)
  next
    assume "\<not> f0 \<and> q 0 \<noteq> Some True"
    with load_loop_declined [of cfg env "load_start f0" txindex_error s1 q] a s0
    show "load_block_index cfg env q f0
             = (Aborted_by_user,
                s1\<lparr>questions := 1,
                   load_log := [Attempt False (Attempt_failed txindex_error),
                                Question txindex_error (q 0)]\<rparr>)"
      by (simp add: load_block_index_def)
  next
    fix r2 s2
    assume "\<not> f0 \<and> q 0 = Some True"
      and "load_attempt cfg env
                (s1\<lparr>load_fReindex := True, questions := 1,
                    load_log := [Attempt False (Attempt_failed txindex_error),
                                 Question txindex_error (Some True)]\<rparr>) = (r2, s2)"
    with load_loop_approved [of cfg env "load_start f0" txindex_error s1 q r2 s2] a s0
    show "load_block_index cfg env q f0
                = (fatal_result r2,
                   s2\<lparr>load_log := [Attempt False (Attempt_failed txindex_error),
                                    Question txindex_error (Some True), Attempt True r2]\<rparr>)"
      by (simp add: load_block_index_def)
  qed
  from one two three show ?thesis by blast
qed

lemma txindex_changed_attempt:
  assumes "\<And>p. pointers s p \<noteq> Dangling" and "passes s = 0"
  shows "load_attempt plain_config txindex_changed_env s
     = (Attempt_failed txindex_error, s\<lparr>pointers := (\<lambda>p. Live), passes := 1\<rparr>)"
proof -
  have d: "databases_opened plain_config (txindex_changed_env (passes s)) (s\<lparr>pointers := (\<lambda>p. Live)\<rparr>)
      = (Pass_failed txindex_error, s\<lparr>pointers := (\<lambda>p. Live)\<rparr>)"
    using assms(2)
    by (simp add: txindex_changed_env_def sound_pass_def plain_config_def databases_opened_def
        verify_loaded_def)
  have n: "\<not> throws (txindex_changed_env (passes s)) line" for line
    by (simp add: txindex_changed_env_def sound_pass_def)
  from load_attempt_single_pass [of txindex_changed_env s plain_config, OF n assms(1) d] assms(2)
  show ?thesis by simp
qed

lemma txindex_changed_reindex_attempt:
  assumes "\<And>p. pointers s p \<noteq> Dangling" and "passes s = 1"
  shows "load_attempt plain_config txindex_changed_env s
     = (Attempt_loaded, s\<lparr>pointers := (\<lambda>p. Live), passes := 2\<rparr>)"
proof -
  have d: "databases_opened plain_config (txindex_changed_env (passes s)) (s\<lparr>pointers := (\<lambda>p. Live)\<rparr>)
      = (Pass_loaded, s\<lparr>pointers := (\<lambda>p. Live)\<rparr>)"
    using assms(2)
    by (simp add: txindex_changed_env_def sound_pass_def plain_config_def databases_opened_def
        verify_loaded_def)
  have n: "\<not> throws (txindex_changed_env (passes s)) line" for line
    by (simp add: txindex_changed_env_def sound_pass_def)
  from load_attempt_single_pass_loaded [of txindex_changed_env s plain_config, OF n assms(1) d] assms(2)
  show ?thesis by simp
qed

theorem txindex_mismatch_rejected_witness:
  "fTxIndex (txindex_changed_env 0) \<noteq> txindex_arg plain_config
   \<and> load_pass plain_config (txindex_changed_env 0) (load_start False)
       = (Pass_failed txindex_error, (load_start False)\<lparr>pointers := (\<lambda>p. Live)\<rparr>)
   \<and> fst (load_block_index plain_config (\<lambda>n. txindex_changed_env 0) (\<lambda>n. Some True) False) \<noteq> Loaded
   \<and> load_block_index plain_config txindex_changed_env (\<lambda>n. None) False
       = (Aborted_by_user,
          \<lparr>load_fReindex = False, upgradeOnceOnly = True, pointers = (\<lambda>p. Live), passes = 1,
           questions = 1,
           load_log = [Attempt False (Attempt_failed txindex_error), Question txindex_error None]\<rparr>)
   \<and> load_block_index plain_config txindex_changed_env (\<lambda>n. Some True) False
       = (Loaded,
          \<lparr>load_fReindex = True, upgradeOnceOnly = True, pointers = (\<lambda>p. Live), passes = 2,
           questions = 1,
           load_log = [Attempt False (Attempt_failed txindex_error),
                       Question txindex_error (Some True), Attempt True Attempt_loaded]\<rparr>)"
proof -
  let ?s1 = "(load_start False)\<lparr>pointers := (\<lambda>p. Live), passes := 1\<rparr>"
  let ?t = "?s1\<lparr>load_fReindex := True, questions := 1,
            load_log := [Attempt False (Attempt_failed txindex_error),
                         Question txindex_error (Some True)]\<rparr>"
  have a1: "load_attempt plain_config txindex_changed_env (load_start False)
      = (Attempt_failed txindex_error, ?s1)"
    by (rule txindex_changed_attempt) (simp_all add: load_start_def)
  have a2: "load_attempt plain_config txindex_changed_env ?t
      = (Attempt_loaded, ?t\<lparr>pointers := (\<lambda>p. Live), passes := 2\<rparr>)"
    by (rule txindex_changed_reindex_attempt) (simp_all add: load_start_def)
  from txindex_mismatch_rejected [of "txindex_changed_env 0" plain_config "load_start False"
      "\<lambda>n. txindex_changed_env 0" "\<lambda>n. Some True" False ?s1]
    txindex_mismatch_rejected [of "txindex_changed_env 0" plain_config "load_start False"
      txindex_changed_env "\<lambda>n. None" False ?s1]
    txindex_mismatch_rejected [of "txindex_changed_env 0" plain_config "load_start False"
      txindex_changed_env "\<lambda>n. Some True" False ?s1]
    a1 a2
  show ?thesis
    by (simp add: txindex_changed_env_def sound_pass_def plain_config_def load_start_def)
qed

text \<open>
  C8 as stated makes the changed flag fatal. With the user agreeing to the rebuild, the
  second attempt loads and start-up goes on.
\<close>

theorem txindex_mismatch_recovered_by_reindex_counterexample:
  "fTxIndex (txindex_changed_env 0) \<noteq> txindex_arg plain_config
   \<and> fst (load_block_index plain_config txindex_changed_env (\<lambda>n. Some True) False) = Loaded"
proof -
  let ?s1 = "(load_start False)\<lparr>pointers := (\<lambda>p. Live), passes := 1\<rparr>"
  let ?t = "?s1\<lparr>load_fReindex := True, questions := Suc (questions (load_start False)),
            load_log := load_log (load_start False)
              @ [Attempt False (Attempt_failed txindex_error), Question txindex_error (Some True)]\<rparr>"
  have a1: "load_attempt plain_config txindex_changed_env (load_start False)
      = (Attempt_failed txindex_error, ?s1)"
    by (rule txindex_changed_attempt) (simp_all add: load_start_def)
  have a2: "load_attempt plain_config txindex_changed_env ?t
      = (Attempt_loaded, ?t\<lparr>pointers := (\<lambda>p. Live), passes := 2\<rparr>)"
    by (rule txindex_changed_reindex_attempt) (simp_all add: load_start_def)
  have "fst (load_loop plain_config txindex_changed_env (\<lambda>n. Some True) (load_start False)) = Loaded"
    by (subst load_loop_approved [OF a1 _ _ a2]) (simp_all add: load_start_def)
  then show ?thesis
    by (simp add: load_block_index_def txindex_changed_env_def sound_pass_def plain_config_def)
qed

text \<open>
  The double delete in a run. The first attempt upgrades the block index of a data
  directory older than version 2.0 and starts over; in its second pass the four objects
  of the first pass are deleted and the constructor on line 1664 throws, which leaves
  the four pointers dangling. The attempt ends with "Error opening block database", and
  it did not begin as a reindex attempt, so the user is asked. After a yes the second
  attempt begins with \<^verbatim>\<open>delete pcoinsTip\<close> on line 1659, on a pointer that was deleted
  before. (\<^verbatim>\<open>CoreShutdown\<close> sets each of these pointers to \<^verbatim>\<open>NULL\<close> after deleting it; the
  loop does not.)
\<close>

lemma upgrade_then_throw_first_attempt:
  "fst (load_attempt plain_config upgrade_then_throw_env (load_start False))
     = Attempt_failed opening_error
   \<and> passes (snd (load_attempt plain_config upgrade_then_throw_env (load_start False))) = 2
   \<and> pointers (snd (load_attempt plain_config upgrade_then_throw_env (load_start False))) Ptr_pcoinsTip
       = Dangling"
proof -
  let ?s = "(load_start False)\<lparr>pointers := (\<lambda>p. Live), upgradeOnceOnly := False, passes := 1\<rparr>"
  have n: "\<not> throws (upgrade_then_throw_env (passes (load_start False))) line" for line
    by (simp add: upgrade_then_throw_env_def sound_pass_def load_start_def)
  have p0: "load_pass plain_config (upgrade_then_throw_env 0) (load_start False)
      = (Goto_loadblockindex, (load_start False)\<lparr>pointers := (\<lambda>p. Live), upgradeOnceOnly := False\<rparr>)"
    using load_pass_no_throw [of "upgrade_then_throw_env (passes (load_start False))"
        "load_start False" plain_config, OF n]
    by (simp add: load_start_def upgrade_then_throw_env_def sound_pass_def plain_config_def
        databases_opened_def upgrade_block_index_def)
  have p1: "fst (load_pass plain_config (upgrade_then_throw_env 1) ?s) = Pass_failed opening_error
      \<and> pointers (snd (load_pass plain_config (upgrade_then_throw_env 1) ?s)) Ptr_pcoinsTip = Dangling
      \<and> passes (snd (load_pass plain_config (upgrade_then_throw_env 1) ?s)) = 1"
    by (simp add: load_pass_def open_steps_def load_start_def upgrade_then_throw_env_def sound_pass_def)
  have "load_attempt plain_config upgrade_then_throw_env (load_start False)
      = load_passes plain_config upgrade_then_throw_env ?s"
    unfolding load_attempt_def
    apply (simp add: upgrade_then_throw_env_def sound_pass_def load_start_def)
    apply (subst load_passes.simps)
    apply (simp add: p0 [unfolded load_start_def upgrade_then_throw_env_def sound_pass_def, simplified]
        upgrade_then_throw_env_def sound_pass_def)
    done
  also have "\<dots> = (case load_pass plain_config (upgrade_then_throw_env 1) ?s of
        (Goto_loadblockindex, s') \<Rightarrow> load_passes plain_config upgrade_then_throw_env (s'\<lparr>passes := Suc (passes s')\<rparr>)
      | (Pass_loaded, s') \<Rightarrow> (Attempt_loaded, s'\<lparr>passes := Suc (passes s')\<rparr>)
      | (Pass_failed msg, s') \<Rightarrow> (Attempt_failed msg, s'\<lparr>passes := Suc (passes s')\<rparr>)
      | (Pass_init_error msg, s') \<Rightarrow> (Attempt_init_error msg, s'\<lparr>passes := Suc (passes s')\<rparr>)
      | (Pass_double_delete p, s') \<Rightarrow> (Attempt_double_delete p, s'\<lparr>passes := Suc (passes s')\<rparr>))"
    by (subst load_passes.simps) (simp add: load_start_def)
  finally show ?thesis using p1
    by (cases "load_pass plain_config (upgrade_then_throw_env 1) ?s") simp
qed

lemma load_attempt_double_delete:
  assumes "pointers s Ptr_pcoinsTip = Dangling" and "\<not> throws (env (passes s)) 1657"
  shows "fst (load_attempt cfg env s) = Attempt_double_delete Ptr_pcoinsTip"
  using assms unfolding load_attempt_def
  by (subst load_passes.simps) (simp add: load_pass_def open_steps_def)

lemma load_block_index_double_delete:
  "fst (load_block_index plain_config upgrade_then_throw_env (\<lambda>n. Some True) False)
     = Undefined_double_delete Ptr_pcoinsTip"
proof -
  obtain s1 where a1: "load_attempt plain_config upgrade_then_throw_env (load_start False)
      = (Attempt_failed opening_error, s1)"
    and p: "passes s1 = 2" and d: "pointers s1 Ptr_pcoinsTip = Dangling"
    using upgrade_then_throw_first_attempt
    by (cases "load_attempt plain_config upgrade_then_throw_env (load_start False)") simp
  let ?t = "s1\<lparr>load_fReindex := True, questions := Suc (questions (load_start False)),
         load_log := load_log (load_start False)
           @ [Attempt False (Attempt_failed opening_error), Question opening_error (Some True)]\<rparr>"
  obtain r2 s2 where a2: "load_attempt plain_config upgrade_then_throw_env ?t = (r2, s2)"
    by (cases "load_attempt plain_config upgrade_then_throw_env ?t")
  have "fst (load_attempt plain_config upgrade_then_throw_env ?t) = Attempt_double_delete Ptr_pcoinsTip"
    by (rule load_attempt_double_delete)
       (simp_all add: p d upgrade_then_throw_env_def sound_pass_def)
  with a2 have r2: "r2 = Attempt_double_delete Ptr_pcoinsTip" by simp
  have "fst (load_loop plain_config upgrade_then_throw_env (\<lambda>n. Some True) (load_start False))
      = fatal_result r2"
    by (subst load_loop_approved [OF a1 _ _ a2]) (simp_all add: load_start_def)
  with r2 show ?thesis by (simp add: load_block_index_def)
qed

subsection \<open>CleanupBlockRevFiles\<close>

lemma digits_simps [simp]:
  "digits []" "digits (c # cs) \<longleftrightarrow> isdigit c \<and> digits cs"
  "digits (xs @ ys) \<longleftrightarrow> digits xs \<and> digits ys"
  by (auto simp add: digits_def)

lemma digit_value_range: "isdigit c \<Longrightarrow> 0 \<le> digit_value c \<and> digit_value c \<le> 9"
  by (simp add: isdigit_def digit_value_def)

lemma digit_value_less: "isdigit a \<Longrightarrow> isdigit b \<Longrightarrow> a < b \<longleftrightarrow> digit_value a < digit_value b"
  by (simp add: digit_value_def less_char_def)

lemma digit_value_eq: "digit_value a = digit_value b \<longleftrightarrow> a = b"
proof
  assume "digit_value a = digit_value b"
  then have "(of_char a :: nat) = of_char b" by (simp add: digit_value_def)
  then show "a = b" by simp
qed simp

lemma atoi_digits_acc:
  "digits cs \<Longrightarrow> atoi_digits cs acc = acc * 10 ^ length cs + atoi_digits cs 0"
proof (induction cs arbitrary: acc)
  case Nil
  then show ?case by simp
next
  case (Cons c cs)
  then have d: "isdigit c" "digits cs" by simp_all
  have "atoi_digits (c # cs) acc = atoi_digits cs (acc * 10 + digit_value c)" using d by simp
  also have "\<dots> = (acc * 10 + digit_value c) * 10 ^ length cs + atoi_digits cs 0"
    using d(2) by (rule Cons.IH)
  also have "\<dots> = acc * 10 ^ length (c # cs) + (digit_value c * 10 ^ length cs + atoi_digits cs 0)"
    by (simp add: algebra_simps)
  also have "digit_value c * 10 ^ length cs + atoi_digits cs 0 = atoi_digits cs (0 * 10 + digit_value c)"
    using Cons.IH [OF d(2), of "0 * 10 + digit_value c"] by simp
  also have "\<dots> = atoi_digits (c # cs) 0" using d by simp
  finally show ?case .
qed

lemma atoi_digits_Cons:
  "isdigit c \<Longrightarrow> digits cs \<Longrightarrow>
     atoi_digits (c # cs) 0 = digit_value c * 10 ^ length cs + atoi_digits cs 0"
  using atoi_digits_acc [of cs "digit_value c"] by simp

lemma atoi_digits_range:
  "digits cs \<Longrightarrow> 0 \<le> atoi_digits cs 0 \<and> atoi_digits cs 0 < 10 ^ length cs"
proof (induction cs)
  case Nil
  then show ?case by simp
next
  case (Cons c cs)
  then have d: "isdigit c" "digits cs" by simp_all
  from Cons.IH [OF d(2)] have r: "0 \<le> atoi_digits cs 0" "atoi_digits cs 0 < 10 ^ length cs" by simp_all
  from digit_value_range [OF d(1)] have v: "0 \<le> digit_value c" "digit_value c \<le> 9" by simp_all
  have p: "(0::int) < 10 ^ length cs" by simp
  have "digit_value c * 10 ^ length cs \<le> 9 * 10 ^ length cs"
    using v p by (intro mult_right_mono) simp_all
  then have "digit_value c * 10 ^ length cs + atoi_digits cs 0 < 10 * 10 ^ length cs"
    using r by linarith
  moreover have "0 \<le> digit_value c * 10 ^ length cs" using v by simp
  ultimately show ?case unfolding atoi_digits_Cons [OF d] using r by simp
qed

lemma digits_less_iff:
  "length s = length t \<Longrightarrow> digits s \<Longrightarrow> digits t \<Longrightarrow>
     s < t \<longleftrightarrow> atoi_digits s 0 < atoi_digits t 0"
proof (induction s t rule: list_induct2)
  case Nil
  then show ?case by simp
next
  case (Cons a s b t)
  then have d: "isdigit a" "digits s" "isdigit b" "digits t" by simp_all
  from Cons.IH [OF d(2) d(4)] have ih: "s < t \<longleftrightarrow> atoi_digits s 0 < atoi_digits t 0" .
  from atoi_digits_range [OF d(2)] have rs: "0 \<le> atoi_digits s 0" "atoi_digits s 0 < 10 ^ length s" by simp_all
  from atoi_digits_range [OF d(4)] have rt: "0 \<le> atoi_digits t 0" "atoi_digits t 0 < 10 ^ length s"
    using Cons.hyps by simp_all
  define P :: int where "P = 10 ^ length s"
  have P: "0 < P" by (simp add: P_def)
  have e1: "atoi_digits (a # s) 0 = digit_value a * P + atoi_digits s 0"
    unfolding P_def by (rule atoi_digits_Cons [OF d(1) d(2)])
  have e2: "atoi_digits (b # t) 0 = digit_value b * P + atoi_digits t 0"
    unfolding P_def Cons.hyps by (rule atoi_digits_Cons [OF d(3) d(4)])
  note e = e1 e2
  show ?case
  proof (cases "a = b")
    case True
    then show ?thesis unfolding e using ih by simp
  next
    case False
    then have ne: "digit_value a \<noteq> digit_value b" by (simp add: digit_value_eq)
    show ?thesis
    proof (cases "digit_value a < digit_value b")
      case True
      then have "a < b" using d by (simp add: digit_value_less)
      moreover have "digit_value a * P + P \<le> digit_value b * P"
      proof -
        from True have "digit_value a + 1 \<le> digit_value b" by simp
        then have "(digit_value a + 1) * P \<le> digit_value b * P" using P by (intro mult_right_mono) simp_all
        then show ?thesis by (simp add: algebra_simps)
      qed
      then have "digit_value a * P + atoi_digits s 0 < digit_value b * P + atoi_digits t 0"
        using rs rt unfolding P_def by linarith
      ultimately show ?thesis unfolding e by simp
    next
      case False
      with ne have gt: "digit_value b < digit_value a" by simp
      then have "b < a" using d by (simp add: digit_value_less)
      then have nl: "\<not> a # s < b # t" using \<open>a \<noteq> b\<close> by auto
      have "digit_value b * P + P \<le> digit_value a * P"
      proof -
        from gt have "digit_value b + 1 \<le> digit_value a" by simp
        then have "(digit_value b + 1) * P \<le> digit_value a * P" using P by (intro mult_right_mono) simp_all
        then show ?thesis by (simp add: algebra_simps)
      qed
      then have "\<not> digit_value a * P + atoi_digits s 0 < digit_value b * P + atoi_digits t 0"
        using rs rt unfolding P_def by linarith
      with nl show ?thesis unfolding e by simp
    qed
  qed
qed

lemma atoi_digits_string:
  assumes "digits s"
  shows "atoi s = atoi_digits s 0"
proof (cases s)
  case Nil
  then show ?thesis by (simp add: atoi_def)
next
  case (Cons c cs)
  with assms have d: "isdigit c" by simp
  then have "\<not> isspace c" "c \<noteq> CHR ''-''" "c \<noteq> CHR ''+''"
    by (auto simp add: isdigit_def isspace_def)
  with Cons show ?thesis by (simp add: atoi_def)
qed

lemma is_blk_name_decompose:
  assumes "is_blk_name name"
  shows "name = ''blk'' @ substr name 3 5 @ ''.dat''" and "length (substr name 3 5) = 5"
proof -
  from assms have l: "length name = 12" and a: "take 3 name = ''blk''" and b: "take 4 (drop 8 name) = ''.dat''"
    by (simp_all add: is_blk_name_def substr_def)
  have c: "drop 5 (drop 3 name) = take 4 (drop 8 name)" using l by simp
  have "name = take 3 name @ drop 3 name" by simp
  also have "drop 3 name = take 5 (drop 3 name) @ drop 5 (drop 3 name)"
    by (rule append_take_drop_id [symmetric])
  finally have "name = take 3 name @ take 5 (drop 3 name) @ take 4 (drop 8 name)"
    unfolding c .
  then show "name = ''blk'' @ substr name 3 5 @ ''.dat''"
    unfolding a b substr_def .
  show "length (substr name 3 5) = 5" using l by (simp add: substr_def)
qed

lemma is_blk_name_compose:
  assumes "length k = 5"
  shows "is_blk_name (''blk'' @ k @ ''.dat'')" and "substr (''blk'' @ k @ ''.dat'') 3 5 = k"
    and "\<not> is_rev_name (''blk'' @ k @ ''.dat'')"
  using assms by (simp_all add: is_blk_name_def is_rev_name_def substr_def)

lemma blk_not_rev: "is_blk_name name \<Longrightarrow> \<not> is_rev_name name"
  by (auto simp add: is_blk_name_def is_rev_name_def)

lemma length_pad [simp]: "length (pad w n) = w"
  by (induction w arbitrary: n) simp_all

lemma isdigit_char_of: "d < 10 \<Longrightarrow> isdigit (char_of (48 + d)) \<and> digit_value (char_of (48 + d)) = int d"
  by (simp add: isdigit_def digit_value_def)

lemma digits_pad [simp]: "digits (pad w n)"
  by (induction w arbitrary: n) (simp_all add: isdigit_char_of)

lemma atoi_digits_append:
  "digits xs \<Longrightarrow> atoi_digits (xs @ ys) acc = atoi_digits ys (atoi_digits xs acc)"
  by (induction xs arbitrary: acc) simp_all

lemma atoi_digits_pad: "atoi_digits (pad w n) 0 = int (n mod 10 ^ w)"
proof (induction w arbitrary: n)
  case 0
  then show ?case by simp
next
  case (Suc w)
  have d: "isdigit (char_of (48 + n mod 10))" "digit_value (char_of (48 + n mod 10)) = int (n mod 10)"
    using isdigit_char_of [of "n mod 10"] by simp_all
  have "atoi_digits (pad (Suc w) n) 0 = atoi_digits [char_of (48 + n mod 10)] (atoi_digits (pad w (n div 10)) 0)"
    by (simp add: atoi_digits_append)
  also have "\<dots> = int ((n div 10) mod 10 ^ w) * 10 + int (n mod 10)"
    using d by (simp add: Suc.IH)
  also have "\<dots> = int (n mod 10 ^ Suc w)"
    by (simp add: mod_mult2_eq)
  finally show ?case .
qed

lemma digits_same_value:
  assumes "length s = length t" "digits s" "digits t" "atoi_digits s 0 = atoi_digits t 0"
  shows "s = t"
proof -
  from assms have "\<not> s < t" "\<not> t < s" by (simp_all add: digits_less_iff)
  then show ?thesis by simp
qed

lemma pad_of_value:
  assumes "length k = 5" "digits k"
  shows "pad 5 (nat (atoi_digits k 0)) = k" and "nat (atoi_digits k 0) < 100000"
proof -
  from atoi_digits_range [OF assms(2)] assms(1)
  have r: "0 \<le> atoi_digits k 0" "atoi_digits k 0 < 100000" by simp_all
  then show "nat (atoi_digits k 0) < 100000" by simp
  have "atoi_digits (pad 5 (nat (atoi_digits k 0))) 0 = atoi_digits k 0"
    using r by (simp add: atoi_digits_pad)
  then show "pad 5 (nat (atoi_digits k 0)) = k"
    using assms by (intro digits_same_value) simp_all
qed

lemma blk_name_props:
  "is_blk_name (blk_name n)" "substr (blk_name n) 3 5 = pad 5 n" "\<not> is_rev_name (blk_name n)"
  unfolding blk_name_def by (rule is_blk_name_compose; simp)+

lemma atoi_pad5: "n < 100000 \<Longrightarrow> atoi (pad 5 n) = int n"
  by (simp add: atoi_digits_string atoi_digits_pad del: pad.simps)

lemma glob_entry_cases:
  "glob_entry e (m, fs) =
     (if snd e \<and> is_blk_name (fst e) then (map_assign (substr (fst e) 3 5) (fst e) m, fs)
      else if snd e \<and> is_rev_name (fst e) then (m, remove_file (fst e) fs)
      else (m, fs))"
  by (auto simp add: glob_entry_def is_blk_name_def is_rev_name_def)

lemma blk_files_Cons:
  "blk_files (e # d) = (if snd e \<and> is_blk_name (fst e) then fst e # blk_files d else blk_files d)"
  by (simp add: blk_files_def)

lemma rev_files_Cons:
  "rev_files (e # d) = (if snd e \<and> is_rev_name (fst e) then fst e # rev_files d else rev_files d)"
  by (simp add: rev_files_def)

lemma filter_remove_file:
  "filter (\<lambda>x. fst x \<notin> set R) (remove_file p fs) = filter (\<lambda>x. fst x \<notin> set (p # R)) fs"
  by (induction fs) (auto simp add: remove_file_def)

lemma fold_glob_entry:
  "fold glob_entry d (m, fs) =
     (fold (\<lambda>n. map_assign (substr n 3 5) n) (blk_files d) m,
      filter (\<lambda>e. fst e \<notin> set (rev_files d)) fs)"
proof (induction d arbitrary: m fs)
  case Nil
  then show ?case by (simp add: blk_files_def rev_files_def)
next
  case (Cons e d)
  have step: "fold glob_entry (e # d) (m, fs) = fold glob_entry d (glob_entry e (m, fs))" by simp
  show ?case
  proof (cases "snd e \<and> is_blk_name (fst e)")
    case True
    then have nr: "\<not> (snd e \<and> is_rev_name (fst e))" by (simp add: blk_not_rev)
    have g: "glob_entry e (m, fs) = (map_assign (substr (fst e) 3 5) (fst e) m, fs)"
      using True by (simp add: glob_entry_cases)
    have b: "blk_files (e # d) = fst e # blk_files d" using True by (simp add: blk_files_Cons)
    have r: "rev_files (e # d) = rev_files d" using nr by (simp add: rev_files_Cons)
    show ?thesis unfolding step g Cons.IH b r by simp
  next
    case False
    then have b: "blk_files (e # d) = blk_files d" by (simp add: blk_files_Cons)
    show ?thesis
    proof (cases "snd e \<and> is_rev_name (fst e)")
      case True
      have g: "glob_entry e (m, fs) = (m, remove_file (fst e) fs)"
        using True False by (auto simp add: glob_entry_cases)
      have r: "rev_files (e # d) = fst e # rev_files d" using True by (simp add: rev_files_Cons)
      show ?thesis unfolding step g Cons.IH b r filter_remove_file by (rule refl)
    next
      case f2: False
      have g: "glob_entry e (m, fs) = (m, fs)"
        using f2 False by (auto simp add: glob_entry_cases)
      have r: "rev_files (e # d) = rev_files d" using f2 by (simp add: rev_files_Cons)
      show ?thesis unfolding step g Cons.IH b r by (rule refl)
    qed
  qed
qed

lemma set_map_assign:
  "set (map_assign k v m) = insert (k, v) {x \<in> set m. fst x \<noteq> k}"
  if "sorted_wrt (<) (map fst m)"
  using that
proof (induction m)
  case Nil
  then show ?case by simp
next
  case (Cons x m)
  obtain k' v' where x: "x = (k', v')" by (cases x)
  from Cons.prems have s: "sorted_wrt (<) (map fst m)" and h: "\<forall>y \<in> set m. k' < fst y"
    by (simp_all add: x)
  show ?case
  proof (cases "k < k'")
    case True
    with h have "\<forall>y \<in> set m. fst y \<noteq> k" by force
    with True show ?thesis by (auto simp add: x)
  next
    case False
    show ?thesis
    proof (cases "k = k'")
      case True
      with h have "\<forall>y \<in> set m. fst y \<noteq> k" by force
      with True show ?thesis by (auto simp add: x)
    next
      case f: False
      with False Cons.IH [OF s] show ?thesis by (auto simp add: x)
    qed
  qed
qed

lemma sorted_map_assign:
  "sorted_wrt (<) (map fst m) \<Longrightarrow> sorted_wrt (<) (map fst (map_assign k v m))"
proof (induction m)
  case Nil
  then show ?case by simp
next
  case (Cons x m)
  obtain k' v' where x: "x = (k', v')" by (cases x)
  from Cons.prems have s: "sorted_wrt (<) (map fst m)" and h: "\<forall>y \<in> set m. k' < fst y"
    by (simp_all add: x)
  show ?case
  proof (cases "k < k'")
    case True
    with h have "\<forall>y \<in> set m. k < fst y" by force
    with True s h show ?thesis by (simp add: x)
  next
    case False
    show ?thesis
    proof (cases "k = k'")
      case True
      with s h show ?thesis by (simp add: x)
    next
      case f: False
      with False have lt: "k' < k" by simp
      have "\<forall>y \<in> set (map_assign k v m). k' < fst y"
        using lt h by (auto simp add: set_map_assign [OF s])
      with False f Cons.IH [OF s] show ?thesis by (simp add: x)
    qed
  qed
qed

lemma fold_map_assign:
  assumes "sorted_wrt (<) (map fst m)" "name_of_key m" "\<forall>n \<in> set ns. is_blk_name n"
  shows "sorted_wrt (<) (map fst (fold (\<lambda>n. map_assign (substr n 3 5) n) ns m))
       \<and> name_of_key (fold (\<lambda>n. map_assign (substr n 3 5) n) ns m)
       \<and> set (fold (\<lambda>n. map_assign (substr n 3 5) n) ns m)
           = set m \<union> (\<lambda>n. (substr n 3 5, n)) ` set ns"
  using assms
proof (induction ns arbitrary: m)
  case Nil
  then show ?case by simp
next
  case (Cons n ns)
  let ?k = "substr n 3 5"
  let ?m = "map_assign ?k n m"
  from Cons.prems have b: "is_blk_name n" by simp
  then have nk: "n = ''blk'' @ ?k @ ''.dat''" by (rule is_blk_name_decompose)
  have s: "sorted_wrt (<) (map fst ?m)" using Cons.prems(1) by (rule sorted_map_assign)
  have st: "set ?m = insert (?k, n) (set m)"
  proof -
    have "x = (?k, n)" if "x \<in> set m" "fst x = ?k" for x
    proof -
      from that Cons.prems(2) have "snd x = ''blk'' @ ?k @ ''.dat''" by (auto simp add: name_of_key_def)
      with nk that show ?thesis by (cases x) simp
    qed
    then show ?thesis unfolding set_map_assign [OF Cons.prems(1)] by auto
  qed
  have nm: "name_of_key ?m"
    using Cons.prems(2) nk unfolding name_of_key_def st by auto
  from Cons.prems(3) have rest: "\<forall>n \<in> set ns. is_blk_name n" by simp
  from Cons.IH [OF s nm rest] st show ?case by auto
qed

lemma contig_loop_filter:
  "contig_loop m n fs = filter (\<lambda>e. fst e \<notin> set (contig_removed m n)) fs"
proof (induction m n fs rule: contig_loop.induct)
  case (1 n fs)
  then show ?case by simp
next
  case (2 k p m n fs)
  show ?case
  proof (cases "atoi k = n")
    case True
    with 2 show ?thesis by simp
  next
    case False
    have "filter (\<lambda>e. fst e \<notin> set (contig_removed m n)) (remove_file p fs)
        = filter (\<lambda>e. fst e \<notin> set (p # contig_removed m n)) fs"
      by (rule filter_remove_file)
    with False 2 show ?thesis by simp
  qed
qed

lemma contig_removed_set:
  assumes "sorted_wrt (<) (map (\<lambda>x. atoi (fst x)) m)" and "\<forall>x \<in> set m. n \<le> atoi (fst x)"
  shows "set (contig_removed m n) =
     {p. \<exists>k. (k, p) \<in> set m \<and> \<not> (\<forall>j. n \<le> j \<and> j \<le> atoi k \<longrightarrow> j \<in> (\<lambda>x. atoi (fst x)) ` set m)}"
  using assms
proof (induction m arbitrary: n)
  case Nil
  then show ?case by simp
next
  case (Cons x m)
  obtain k p where x: "x = (k, p)" by (cases x)
  define V where "V = (\<lambda>x. atoi (fst x)) ` set m"
  from Cons.prems have s: "sorted_wrt (<) (map (\<lambda>x. atoi (fst x)) m)"
    and gt: "\<forall>y \<in> set m. atoi k < atoi (fst y)" and ge: "n \<le> atoi k"
    by (simp_all add: x)
  have V: "(\<lambda>x. atoi (fst x)) ` set (x # m) = insert (atoi k) V" by (simp add: x V_def)
  have Vgt: "\<forall>v \<in> V. atoi k < v" using gt by (auto simp add: V_def)
  show ?case
  proof (cases "atoi k = n")
    case True
    have ge': "\<forall>y \<in> set m. n + 1 \<le> atoi (fst y)" using gt True by force
    have ih: "set (contig_removed m (n + 1)) =
       {p. \<exists>k. (k, p) \<in> set m \<and> \<not> (\<forall>j. n + 1 \<le> j \<and> j \<le> atoi k \<longrightarrow> j \<in> V)}"
      unfolding V_def by (rule Cons.IH [OF s ge'])
    have c: "(\<forall>j. n \<le> j \<and> j \<le> w \<longrightarrow> j \<in> insert n V) \<longleftrightarrow> (\<forall>j. n + 1 \<le> j \<and> j \<le> w \<longrightarrow> j \<in> V)" for w
    proof
      assume a: "\<forall>j. n \<le> j \<and> j \<le> w \<longrightarrow> j \<in> insert n V"
      show "\<forall>j. n + 1 \<le> j \<and> j \<le> w \<longrightarrow> j \<in> V"
      proof (intro allI impI)
        fix j assume h: "n + 1 \<le> j \<and> j \<le> w"
        then have "n \<le> j \<and> j \<le> w" by simp
        with a have "j \<in> insert n V" by blast
        moreover from h have "j \<noteq> n" by simp
        ultimately show "j \<in> V" by simp
      qed
    next
      assume a: "\<forall>j. n + 1 \<le> j \<and> j \<le> w \<longrightarrow> j \<in> V"
      show "\<forall>j. n \<le> j \<and> j \<le> w \<longrightarrow> j \<in> insert n V"
      proof (intro allI impI)
        fix j assume h: "n \<le> j \<and> j \<le> w"
        show "j \<in> insert n V"
        proof (cases "j = n")
          case True then show ?thesis by simp
        next
          case False
          with h have "n + 1 \<le> j \<and> j \<le> w" by simp
          with a show ?thesis by simp
        qed
      qed
    qed
    have head: "\<forall>j. n \<le> j \<and> j \<le> atoi k \<longrightarrow> j \<in> insert n V" using True by auto
    have "set (contig_removed (x # m) n) = set (contig_removed m (n + 1))"
      using True by (simp add: x)
    also note ih
    also have "{p. \<exists>k. (k, p) \<in> set m \<and> \<not> (\<forall>j. n + 1 \<le> j \<and> j \<le> atoi k \<longrightarrow> j \<in> V)}
       = {p'. \<exists>k'. (k', p') \<in> set (x # m) \<and> \<not> (\<forall>j. n \<le> j \<and> j \<le> atoi k' \<longrightarrow> j \<in> insert n V)}"
      using head unfolding c x by auto
    finally show ?thesis unfolding V True .
  next
    case False
    with ge have lt: "n < atoi k" by simp
    have ge': "\<forall>y \<in> set m. n \<le> atoi (fst y)" using gt lt by force
    have nV: "n \<notin> insert (atoi k) V" using lt Vgt by auto
    have all_removed: "\<not> (\<forall>j. n \<le> j \<and> j \<le> atoi k' \<longrightarrow> j \<in> insert (atoi k) V)"
      if "(k', p') \<in> set (x # m)" for k' p'
    proof -
      from that ge ge' have "n \<le> atoi k'" by (auto simp add: x)
      with nV show ?thesis by blast
    qed
    have ih: "set (contig_removed m n) =
       {p. \<exists>k. (k, p) \<in> set m \<and> \<not> (\<forall>j. n \<le> j \<and> j \<le> atoi k \<longrightarrow> j \<in> V)}"
      unfolding V_def by (rule Cons.IH [OF s ge'])
    have tail: "\<not> (\<forall>j. n \<le> j \<and> j \<le> atoi k' \<longrightarrow> j \<in> V)" if "(k', p') \<in> set m" for k' p'
    proof -
      from that ge' have "n \<le> atoi k'" by auto
      moreover have "n \<notin> V" using nV by simp
      ultimately show ?thesis by blast
    qed
    have "set (contig_removed (x # m) n) = insert p (set (contig_removed m n))"
      using False by (simp add: x)
    also have "\<dots> = insert p {p'. \<exists>k'. (k', p') \<in> set m}"
      unfolding ih using tail by auto
    also have "\<dots> = {p'. \<exists>k'. (k', p') \<in> set (x # m)}" by (auto simp add: x)
    also have "\<dots> = {p'. \<exists>k'. (k', p') \<in> set (x # m)
          \<and> \<not> (\<forall>j. n \<le> j \<and> j \<le> atoi k' \<longrightarrow> j \<in> insert (atoi k) V)}"
      using all_removed by blast
    finally show ?thesis unfolding V .
  qed
qed

lemma CleanupBlockRevFiles_filter:
  "CleanupBlockRevFiles d =
     filter (\<lambda>e. fst e \<notin> set (contig_removed (fold (\<lambda>n. map_assign (substr n 3 5) n) (blk_files d) []) 0))
       (filter (\<lambda>e. fst e \<notin> set (rev_files d)) d)"
  by (simp add: CleanupBlockRevFiles_def fold_glob_entry contig_loop_filter)

lemma numbered_is_blk_name:
  assumes "numbered_block_files d" "(n, True) \<in> set d" "is_blk_name n"
  shows "\<exists>i < 100000. n = blk_name i \<and> substr n 3 5 = pad 5 i \<and> atoi (substr n 3 5) = int i"
proof -
  let ?k = "substr n 3 5"
  from assms have dg: "digits ?k" by (auto simp add: numbered_block_files_def)
  from assms(3) have nk: "n = ''blk'' @ ?k @ ''.dat''" and l: "length ?k = 5"
    by (rule is_blk_name_decompose)+
  let ?i = "nat (atoi_digits ?k 0)"
  from pad_of_value [OF l dg] have p: "pad 5 ?i = ?k" and b: "?i < 100000" .
  from atoi_digits_range [OF dg] have "atoi ?k = int ?i" by (simp add: atoi_digits_string [OF dg])
  moreover have "n = blk_name ?i" unfolding blk_name_def p using nk .
  ultimately show ?thesis using p b by metis
qed

lemma contig_run:
  assumes num: "numbered_block_files d"
  defines "m \<equiv> fold (\<lambda>n. map_assign (substr n 3 5) n) (blk_files d) []"
  shows "set m = (\<lambda>n. (substr n 3 5, n)) ` set (blk_files d)"
    and "(\<lambda>x. atoi (fst x)) ` set m = {int j | j. j < 100000 \<and> (blk_name j, True) \<in> set d}"
    and "set (contig_removed m 0) =
      {p. \<exists>k. (k, p) \<in> set m \<and> \<not> (\<forall>j. 0 \<le> j \<and> j \<le> atoi k \<longrightarrow> j \<in> (\<lambda>x. atoi (fst x)) ` set m)}"
proof -
  have bf: "n \<in> set (blk_files d) \<longleftrightarrow> (n, True) \<in> set d \<and> is_blk_name n" for n
    by (force simp add: blk_files_def)
  have f: "sorted_wrt (<) (map fst m) \<and> name_of_key m
       \<and> set m = set [] \<union> (\<lambda>n. (substr n 3 5, n)) ` set (blk_files d)"
    unfolding m_def by (rule fold_map_assign) (simp_all add: name_of_key_def bf)
  then show sm: "set m = (\<lambda>n. (substr n 3 5, n)) ` set (blk_files d)" by simp
  have key: "length (fst x) = 5 \<and> digits (fst x) \<and> 0 \<le> atoi (fst x)" if "x \<in> set m" for x
  proof -
    from that sm obtain n where n: "(n, True) \<in> set d" "is_blk_name n" and x: "x = (substr n 3 5, n)"
      by (auto simp add: bf)
    from num n have dg: "digits (substr n 3 5)" by (auto simp add: numbered_block_files_def)
    from n(2) have "length (substr n 3 5) = 5" by (rule is_blk_name_decompose)
    with dg atoi_digits_range [OF dg] show ?thesis by (simp add: x atoi_digits_string [OF dg])
  qed
  from f have "sorted_wrt (\<lambda>x y. fst x < fst y) m" by (simp add: sorted_wrt_map)
  then have "sorted_wrt (\<lambda>x y. atoi (fst x) < atoi (fst y)) m"
  proof (rule sorted_wrt_mono_rel [rotated])
    fix x y assume "x \<in> set m" "y \<in> set m" "fst x < fst y"
    with key [of x] key [of y] show "atoi (fst x) < atoi (fst y)"
      by (simp add: atoi_digits_string digits_less_iff [symmetric])
  qed
  then have s: "sorted_wrt (<) (map (\<lambda>x. atoi (fst x)) m)" by (simp add: sorted_wrt_map)
  have ge: "\<forall>x \<in> set m. 0 \<le> atoi (fst x)" using key by blast
  show "set (contig_removed m 0) =
      {p. \<exists>k. (k, p) \<in> set m \<and> \<not> (\<forall>j. 0 \<le> j \<and> j \<le> atoi k \<longrightarrow> j \<in> (\<lambda>x. atoi (fst x)) ` set m)}"
    using s ge by (rule contig_removed_set)
  show "(\<lambda>x. atoi (fst x)) ` set m = {int j | j. j < 100000 \<and> (blk_name j, True) \<in> set d}"
  proof (intro set_eqI iffI)
    fix v assume "v \<in> (\<lambda>x. atoi (fst x)) ` set m"
    then obtain n where n: "(n, True) \<in> set d" "is_blk_name n" and v: "v = atoi (substr n 3 5)"
      unfolding sm by (auto simp add: bf)
    from numbered_is_blk_name [OF num n] obtain i where "i < 100000" "n = blk_name i" "atoi (substr n 3 5) = int i"
      by blast
    with n v show "v \<in> {int j | j. j < 100000 \<and> (blk_name j, True) \<in> set d}" by auto
  next
    fix v assume "v \<in> {int j | j. j < 100000 \<and> (blk_name j, True) \<in> set d}"
    then obtain j where j: "j < 100000" "(blk_name j, True) \<in> set d" and v: "v = int j" by blast
    then have "blk_name j \<in> set (blk_files d)" by (simp add: bf blk_name_props)
    then have "(pad 5 j, blk_name j) \<in> set m" unfolding sm using blk_name_props(2) [of j] by force
    then have "atoi (pad 5 j) \<in> (\<lambda>x. atoi (fst x)) ` set m" by force
    with j v show "v \<in> (\<lambda>x. atoi (fst x)) ` set m" by (simp add: atoi_pad5)
  qed
qed

lemma same_name_same_entry:
  "distinct (map fst d) \<Longrightarrow> e \<in> set d \<Longrightarrow> e' \<in> set d \<Longrightarrow> fst e = fst e' \<Longrightarrow> e = e'"
  by (metis distinct_map inj_onD)

text \<open>
  C5. In a directory of numbered block files (with no two entries of the same name),
  the cleanup keeps block file \<open>i\<close> exactly when the block files 0 to \<open>i\<close> are all there:
  what stays is the longest run of numbers without a gap that starts at 0, and every
  block file is one of the numbered ones. No undo file stays. Nothing is added, and
  every entry that is neither a regular block file nor a regular undo file is left
  alone. In the directory with \<^verbatim>\<open>blk00000.dat\<close>, \<^verbatim>\<open>blk00002.dat\<close> and \<^verbatim>\<open>rev00000.dat\<close> only
  \<^verbatim>\<open>blk00000.dat\<close> stays.
\<close>

theorem CleanupBlockRevFiles_keeps_contiguous_run:
  assumes dist: "distinct (map fst d)" and num: "numbered_block_files d"
  shows "(\<forall>i < 100000. (blk_name i, True) \<in> set (CleanupBlockRevFiles d)
            \<longleftrightarrow> (\<forall>j \<le> i. (blk_name j, True) \<in> set d))
       \<and> (\<forall>e \<in> set d. snd e \<and> is_blk_name (fst e) \<longrightarrow> (\<exists>i < 100000. fst e = blk_name i))
       \<and> (\<forall>e \<in> set (CleanupBlockRevFiles d). \<not> (snd e \<and> is_rev_name (fst e)))
       \<and> set (CleanupBlockRevFiles d) \<subseteq> set d
       \<and> (\<forall>e \<in> set d. \<not> (snd e \<and> (is_blk_name (fst e) \<or> is_rev_name (fst e)))
            \<longrightarrow> e \<in> set (CleanupBlockRevFiles d))"
proof -
  define m where "m = fold (\<lambda>n. map_assign (substr n 3 5) n) (blk_files d) []"
  define V where "V = (\<lambda>x. atoi (fst x)) ` set m"
  note cr = contig_run [OF num, folded m_def, folded V_def]
  have res: "e \<in> set (CleanupBlockRevFiles d) \<longleftrightarrow>
      e \<in> set d \<and> fst e \<notin> set (rev_files d) \<and> fst e \<notin> set (contig_removed m 0)" for e
    unfolding CleanupBlockRevFiles_filter m_def by auto
  have bf: "n \<in> set (blk_files d) \<longleftrightarrow> (n, True) \<in> set d \<and> is_blk_name n" for n
    by (force simp add: blk_files_def)
  have rf: "n \<in> set (rev_files d) \<longleftrightarrow> (n, True) \<in> set d \<and> is_rev_name n" for n
    by (force simp add: rev_files_def)
  have removed_blk: "n \<in> set (contig_removed m 0) \<Longrightarrow> (n, True) \<in> set d \<and> is_blk_name n" for n
    unfolding cr(3) cr(1) by (auto simp add: bf)
  have one: "(blk_name i, True) \<in> set (CleanupBlockRevFiles d)
            \<longleftrightarrow> (\<forall>j \<le> i. (blk_name j, True) \<in> set d)" if i: "i < 100000" for i
  proof (cases "(blk_name i, True) \<in> set d")
    case False
    then show ?thesis by (auto simp add: res)
  next
    case True
    then have inm: "(pad 5 i, blk_name i) \<in> set m"
      unfolding cr(1) using blk_name_props(1,2) [of i] by (force simp add: bf)
    have nr: "blk_name i \<notin> set (rev_files d)" by (simp add: rf blk_name_props)
    have key: "k = pad 5 i" if "(k, blk_name i) \<in> set m" for k
      using that unfolding cr(1) by (auto simp add: blk_name_props)
    have "blk_name i \<in> set (contig_removed m 0)
        \<longleftrightarrow> \<not> (\<forall>j. 0 \<le> j \<and> j \<le> atoi (pad 5 i) \<longrightarrow> j \<in> V)"
      unfolding cr(3) using inm key by blast
    also have "(\<forall>j. 0 \<le> j \<and> j \<le> atoi (pad 5 i) \<longrightarrow> j \<in> V)
        \<longleftrightarrow> (\<forall>j \<le> i. (blk_name j, True) \<in> set d)"
    proof
      assume a: "\<forall>j. 0 \<le> j \<and> j \<le> atoi (pad 5 i) \<longrightarrow> j \<in> V"
      show "\<forall>j \<le> i. (blk_name j, True) \<in> set d"
      proof (intro allI impI)
        fix j assume "j \<le> i"
        then have "0 \<le> int j \<and> int j \<le> atoi (pad 5 i)" using i by (simp add: atoi_pad5)
        with a have "int j \<in> V" by blast
        then show "(blk_name j, True) \<in> set d" unfolding cr(2) by auto
      qed
    next
      assume a: "\<forall>j \<le> i. (blk_name j, True) \<in> set d"
      show "\<forall>j. 0 \<le> j \<and> j \<le> atoi (pad 5 i) \<longrightarrow> j \<in> V"
      proof (intro allI impI)
        fix j :: int assume h: "0 \<le> j \<and> j \<le> atoi (pad 5 i)"
        then have "nat j \<le> i" using i by (auto simp add: atoi_pad5 nat_le_iff)
        with a i have "(blk_name (nat j), True) \<in> set d" "nat j < 100000" by simp_all
        then have "int (nat j) \<in> V" unfolding cr(2) by blast
        with h show "j \<in> V" by simp
      qed
    qed
    finally show ?thesis using True nr by (simp add: res)
  qed
  have two: "\<exists>i < 100000. fst e = blk_name i" if "e \<in> set d" "snd e \<and> is_blk_name (fst e)" for e
  proof -
    obtain n b where eq: "e = (n, b)" by (cases e)
    with that(2) have "b" by simp
    with eq that(1) have "(fst e, True) \<in> set d" by simp
    from numbered_is_blk_name [OF num this] that(2) show ?thesis by blast
  qed
  have three: "\<not> (snd e \<and> is_rev_name (fst e))" if "e \<in> set (CleanupBlockRevFiles d)" for e
  proof
    assume "snd e \<and> is_rev_name (fst e)"
    moreover from that have "e \<in> set d" "fst e \<notin> set (rev_files d)" by (simp_all add: res)
    ultimately show False by (cases e) (auto simp add: rf)
  qed
  have four: "set (CleanupBlockRevFiles d) \<subseteq> set d" by (auto simp add: res)
  have five: "e \<in> set (CleanupBlockRevFiles d)"
    if e: "e \<in> set d" and n: "\<not> (snd e \<and> (is_blk_name (fst e) \<or> is_rev_name (fst e)))" for e
  proof -
    have "fst e \<notin> set (rev_files d)"
    proof
      assume "fst e \<in> set (rev_files d)"
      then have r: "(fst e, True) \<in> set d" "is_rev_name (fst e)" by (simp_all add: rf)
      with dist e have "e = (fst e, True)" by (intro same_name_same_entry [of d]) simp_all
      then have "snd e" by (cases e) simp
      with r n show False by simp
    qed
    moreover have "fst e \<notin> set (contig_removed m 0)"
    proof
      assume "fst e \<in> set (contig_removed m 0)"
      then have r: "(fst e, True) \<in> set d" "is_blk_name (fst e)" using removed_blk by blast+
      with dist e have "e = (fst e, True)" by (intro same_name_same_entry [of d]) simp_all
      then have "snd e" by (cases e) simp
      with r n show False by simp
    qed
    ultimately show ?thesis using e by (simp add: res)
  qed
  from one two three four five show ?thesis by blast
qed

lemma blk_name_values:
  "blk_name 0 = ''blk00000.dat''" "blk_name 1 = ''blk00001.dat''" "blk_name 2 = ''blk00002.dat''"
  by code_simp+

lemma cleanup_example:
  "CleanupBlockRevFiles [(''blk00000.dat'', True), (''blk00002.dat'', True), (''rev00000.dat'', True)]
     = [(''blk00000.dat'', True)]"
  by code_simp

theorem CleanupBlockRevFiles_keeps_contiguous_run_witness:
  "distinct (map fst [(''blk00000.dat'', True), (''blk00002.dat'', True), (''rev00000.dat'', True)])
   \<and> numbered_block_files [(''blk00000.dat'', True), (''blk00002.dat'', True), (''rev00000.dat'', True)]
   \<and> CleanupBlockRevFiles [(''blk00000.dat'', True), (''blk00002.dat'', True), (''rev00000.dat'', True)]
       = [(''blk00000.dat'', True)]
   \<and> (blk_name 0, True) \<in> set (CleanupBlockRevFiles
        [(''blk00000.dat'', True), (''blk00002.dat'', True), (''rev00000.dat'', True)])
   \<and> (blk_name 2, True) \<notin> set (CleanupBlockRevFiles
        [(''blk00000.dat'', True), (''blk00002.dat'', True), (''rev00000.dat'', True)])"
proof -
  let ?d = "[(''blk00000.dat'', True), (''blk00002.dat'', True), (''rev00000.dat'', True)]"
  have dist: "distinct (map fst ?d)" by simp
  have num: "numbered_block_files ?d" by code_simp
  have in0: "\<forall>j \<le> 0. (blk_name j, True) \<in> set ?d" by (simp add: blk_name_values)
  have out1: "(blk_name 1, True) \<notin> set ?d" unfolding blk_name_values by simp
  have out2: "\<not> (\<forall>j \<le> 2. (blk_name j, True) \<in> set ?d)"
  proof
    assume a: "\<forall>j \<le> 2. (blk_name j, True) \<in> set ?d"
    have "(1::nat) \<le> 2" by simp
    with a have "(blk_name 1, True) \<in> set ?d" by blast
    with out1 show False by simp
  qed
  from CleanupBlockRevFiles_keeps_contiguous_run [OF dist num]
  have A: "\<forall>i < 100000. (blk_name i, True) \<in> set (CleanupBlockRevFiles ?d)
            \<longleftrightarrow> (\<forall>j \<le> i. (blk_name j, True) \<in> set ?d)"
    by (rule conjunct1)
  have "(0::nat) < 100000" by simp
  with A in0 have k0: "(blk_name 0, True) \<in> set (CleanupBlockRevFiles ?d)" by blast
  have "(2::nat) < 100000" by simp
  with A out2 have k2: "(blk_name 2, True) \<notin> set (CleanupBlockRevFiles ?d)" by blast
  from dist num cleanup_example k0 k2 show ?thesis by blast
qed

end
